theory Spec2Isabelle
  imports Main
begin

section \<open>The VM state manager (state.go)\<close>

subsection \<open>Data model\<close>

text \<open>
  \<^verbatim>\<open>type vmStatus int\<close> with five constants numbered by \<^verbatim>\<open>iota\<close>. The type is an
  integer in the source, so values outside the five constants are well typed; the model
  keeps it an integer and the five constants are definitions.
\<close>

type_synonym vmStatus = int

definition statusUnknown :: vmStatus where "statusUnknown = 0"
definition statusRunning :: vmStatus where "statusRunning = 1"
definition statusPaused :: vmStatus where "statusPaused = 2"
definition statusWaking :: vmStatus where "statusWaking = 3"
definition statusNotFound :: vmStatus where "statusNotFound = 4"

text \<open>
  Instants (\<^verbatim>\<open>time.Time\<close>) are integers, in nanoseconds since the Unix epoch; durations
  (\<^verbatim>\<open>time.Duration\<close>) are 64-bit signed nanosecond counts. \<^verbatim>\<open>Time.Sub\<close> saturates
  at the ends of the duration range. The zero \<^verbatim>\<open>time.Time\<close> is 1 January of year 1.
\<close>

type_synonym time = int
type_synonym duration = int

definition zeroTime :: time where
  "zeroTime = - 62135596800000000000"

definition minDuration :: duration where "minDuration = - (2 ^ 63)"
definition maxDuration :: duration where "maxDuration = 2 ^ 63 - 1"

definition time_Sub :: "time \<Rightarrow> time \<Rightarrow> duration" where
  "time_Sub t u = max minDuration (min maxDuration (t - u))"

text \<open>
  Errors are values. \<open>ClientError\<close> is whatever the SDK client returned; the others are
  the errors of state.go, one constructor for each \<^verbatim>\<open>fmt.Errorf\<close> format, and
  \<open>ContextError\<close> is \<^verbatim>\<open>ctx.Err()\<close>.
\<close>

datatype error =
    ClientError string
  | FetchingHostGroup string error
  | AppNotFound string
  | WakeFailed string error
  | WakeTimedOut string duration
  | ContextError
  | UnexpectedStatus string

text \<open>
  The panics of the Go runtime that the code can meet: closing a channel that is already
  closed, and reading a field through a nil pointer.
\<close>

datatype panic = CloseOfClosedChannel | NilDereference

text \<open>
  \<^verbatim>\<open>vmInfo\<close>. A channel is an address in a store of channels: \<open>wakeCh = None\<close> is the
  nil channel, \<open>Some c\<close> is the channel made by the \<open>c\<close>-th \<^verbatim>\<open>make(chan struct{})\<close>.
\<close>

record vmInfo =
  hostname :: string
  ip :: string
  status :: vmStatus
  lastSeen :: time
  wakeCh :: "nat option"
  wakeErr :: "error option"

text \<open>A node as \<^verbatim>\<open>GetHostGroupNodes\<close> of the SDK reports it.\<close>

record node =
  nodeHostname :: string
  nodeIP :: string
  nodeStatus :: string

text \<open>The calls made on the SDK client, in order: what a test double would record.\<close>

datatype call = GetHostGroupNodes string | ResumeVM string | PauseVM string

text \<open>
  \<^verbatim>\<open>vmStateManager\<close>. The map holds pointers in the source; a pointer is stored under a
  key only when the key is absent (\<^verbatim>\<open>lookup\<close>) and is never removed or replaced, so the
  record a caller holds for a key is the record the map holds for that key, and the
  model keeps records by key. \<open>closed\<close> and \<open>nextCh\<close> are the store of channels: the
  channels closed so far and the address of the next channel made. \<open>calls\<close> is the
  client's call record and \<open>logs\<close> the messages given to the logger.
\<close>

record vmStateManager =
  vms :: "string \<rightharpoonup> vmInfo"
  closed :: "nat set"
  nextCh :: nat
  calls :: "call list"
  logs :: "string list"

definition newVMStateManager :: vmStateManager where
  "newVMStateManager =
     \<lparr>vms = Map.empty, closed = {}, nextCh = 0, calls = [], logs = []\<rparr>"

subsection \<open>lookup\<close>

text \<open>The \<^verbatim>\<open>switch node.Status\<close> of \<^verbatim>\<open>lookup\<close>.\<close>

definition nodeStatusToVM :: "string \<Rightarrow> vmStatus" where
  "nodeStatusToVM s =
     (if s = ''Running'' then statusRunning
      else if s = ''Paused'' then statusPaused
      else statusUnknown)"

text \<open>
  The second critical section of \<^verbatim>\<open>lookup\<close>, entered after the describe call has
  returned \<open>nodes\<close> without error: the check again under the lock, then the new record.
  \<open>now\<close> is what \<^verbatim>\<open>time.Now()\<close> returns there.
\<close>

definition lookup_store ::
  "vmStateManager \<Rightarrow> string \<Rightarrow> node list \<Rightarrow> time \<Rightarrow> vmStateManager \<times> vmInfo" where
  "lookup_store m appName nodes now =
     (case vms m appName of
        Some info \<Rightarrow> (m, info)
      | None \<Rightarrow>
         (case nodes of
            [] \<Rightarrow>
              (let info = \<lparr>hostname = [], ip = [], status = statusNotFound,
                            lastSeen = zeroTime, wakeCh = None, wakeErr = None\<rparr>
               in (m\<lparr>vms := (vms m)(appName \<mapsto> info)\<rparr>, info))
          | nd # _ \<Rightarrow>
              (let info = \<lparr>hostname = nodeHostname nd, ip = nodeIP nd,
                            status = nodeStatusToVM (nodeStatus nd),
                            lastSeen = now, wakeCh = None, wakeErr = None\<rparr>
               in (m\<lparr>vms := (vms m)(appName \<mapsto> info)\<rparr>, info))))"

text \<open>
  \<^verbatim>\<open>lookup\<close> run without interference. \<open>res\<close> is what \<^verbatim>\<open>GetHostGroupNodes\<close> returns
  if it is called; the call is made, and recorded in \<open>calls\<close>, only on a miss.
\<close>

definition lookup ::
  "vmStateManager \<Rightarrow> string \<Rightarrow> error + node list \<Rightarrow> time \<Rightarrow>
     vmStateManager \<times> (error + vmInfo)" where
  "lookup m appName res now =
     (case vms m appName of
        Some info \<Rightarrow> (m, Inr info)
      | None \<Rightarrow>
         (let m1 = m\<lparr>calls := calls m @ [GetHostGroupNodes appName]\<rparr>
          in case res of
               Inl err \<Rightarrow> (m1, Inl (FetchingHostGroup appName err))
             | Inr nodes \<Rightarrow>
                 (case lookup_store m1 appName nodes now of (m2, info) \<Rightarrow> (m2, Inr info))))"

subsection \<open>Waking\<close>

text \<open>
  What a call of \<^verbatim>\<open>ensureRunning\<close> has done when it returns or blocks: it has
  returned a result, or it is in \<^verbatim>\<open>waitForWake\<close>; \<open>StartedWake h\<close> says that it has
  also started the goroutine \<^verbatim>\<open>doWake(appName, h)\<close> before waiting.
\<close>

datatype outcome =
    Return "error + string"
  | WaitForWake
  | StartedWake string
  | Panics panic

text \<open>
  \<^verbatim>\<open>initiateWake\<close> up to its call of \<^verbatim>\<open>waitForWake\<close>: the critical section with the
  double check, the log line, and the \<^verbatim>\<open>go m.doWake\<close>. The record \<^verbatim>\<open>info\<close> is the one
  the map holds for \<open>appName\<close>; with no record the pointer would be nil and the first
  read of a field would panic.
\<close>

definition initiateWake :: "vmStateManager \<Rightarrow> string \<Rightarrow> vmStateManager \<times> outcome" where
  "initiateWake m appName =
     (case vms m appName of
        None \<Rightarrow> (m, Panics NilDereference)
      | Some info \<Rightarrow>
          if status info = statusWaking then (m, WaitForWake)
          else if status info = statusRunning then (m, Return (Inr (ip info)))
          else
            (let info' = info\<lparr>status := statusWaking, wakeCh := Some (nextCh m),
                               wakeErr := None\<rparr>
             in (m\<lparr>vms := (vms m)(appName \<mapsto> info'), nextCh := Suc (nextCh m),
                    logs := logs m @ [''waking VM'']\<rparr>,
                 StartedWake (hostname info))))"

text \<open>
  The \<^verbatim>\<open>select\<close> of \<^verbatim>\<open>waitForWake\<close>: which case fired, and what the call returns
  then. \<open>info\<close> is the record as it is when the caller reads it.
\<close>

datatype select_case = WakeChClosed | TimerFired | CtxDone

definition waitForWake ::
  "vmInfo \<Rightarrow> string \<Rightarrow> duration \<Rightarrow> select_case \<Rightarrow> error + string" where
  "waitForWake info appName timeout sc =
     (case sc of
        WakeChClosed \<Rightarrow>
          (case wakeErr info of
             Some e \<Rightarrow> Inl (WakeFailed appName e)
           | None \<Rightarrow> Inr (ip info))
      | TimerFired \<Rightarrow> Inl (WakeTimedOut appName timeout)
      | CtxDone \<Rightarrow> Inl ContextError)"

text \<open>
  \<^verbatim>\<open>finishWake\<close>. \<^verbatim>\<open>close\<close> of a closed channel panics; nothing recovers a panic in
  the goroutine of \<^verbatim>\<open>doWake\<close>, so the process ends there.
\<close>

definition finishWake ::
  "vmStateManager \<Rightarrow> string \<Rightarrow> error option \<Rightarrow> panic + vmStateManager" where
  "finishWake m appName err =
     (case vms m appName of
        None \<Rightarrow> Inr m
      | Some info \<Rightarrow>
          (let info1 = info\<lparr>wakeErr := err\<rparr>;
               info2 = (if err = None then info1\<lparr>status := statusRunning\<rparr>
                        else info1\<lparr>status := statusPaused\<rparr>);
               m1 = m\<lparr>vms := (vms m)(appName \<mapsto> info2),
                      logs := logs m @ [if err = None then ''VM resumed''
                                        else ''VM wake failed'']\<rparr>
           in case wakeCh info2 of
                None \<Rightarrow> Inr m1
              | Some c \<Rightarrow>
                  if c \<in> closed m1 then Inl CloseOfClosedChannel
                  else Inr (m1\<lparr>closed := insert c (closed m1)\<rparr>)))"

text \<open>\<^verbatim>\<open>doWake\<close>: the resume call, whose result is \<open>err\<close>, then \<^verbatim>\<open>finishWake\<close>.\<close>

definition doWake ::
  "vmStateManager \<Rightarrow> string \<Rightarrow> string \<Rightarrow> error option \<Rightarrow> panic + vmStateManager" where
  "doWake m appName hostnm err =
     finishWake (m\<lparr>calls := calls m @ [ResumeVM hostnm]\<rparr>) appName err"

text \<open>
  \<^verbatim>\<open>ensureRunning\<close> run without interference, up to the point where it returns or
  blocks in \<^verbatim>\<open>waitForWake\<close>.
\<close>

definition ensureRunning ::
  "vmStateManager \<Rightarrow> string \<Rightarrow> error + node list \<Rightarrow> time \<Rightarrow> vmStateManager \<times> outcome" where
  "ensureRunning m appName res now =
     (case lookup m appName res now of
        (m1, Inl err) \<Rightarrow> (m1, Return (Inl err))
      | (m1, Inr info) \<Rightarrow>
          if status info = statusNotFound then (m1, Return (Inl (AppNotFound appName)))
          else if status info = statusRunning then (m1, Return (Inr (ip info)))
          else if status info = statusWaking then (m1, WaitForWake)
          else if status info = statusPaused \<or> status info = statusUnknown
            then initiateWake m1 appName
          else (m1, Return (Inl (UnexpectedStatus appName))))"

subsection \<open>Idle bookkeeping\<close>

definition touchLastSeen :: "vmStateManager \<Rightarrow> string \<Rightarrow> time \<Rightarrow> vmStateManager" where
  "touchLastSeen m appName now =
     (case vms m appName of
        Some info \<Rightarrow> m\<lparr>vms := (vms m)(appName \<mapsto> info\<lparr>lastSeen := now\<rparr>)\<rparr>
      | None \<Rightarrow> m)"

text \<open>
  \<^verbatim>\<open>idleApps\<close>. Go visits the keys of a map in an unspecified order, each key once:
  \<open>order\<close> is the order of this visit. The function returns the list it appends to and
  writes nothing.
\<close>

definition idleApps ::
  "vmStateManager \<Rightarrow> duration \<Rightarrow> time \<Rightarrow> string list \<Rightarrow> string list" where
  "idleApps m timeout now order =
     filter (\<lambda>name. case vms m name of
                      Some info \<Rightarrow> status info = statusRunning
                                   \<and> time_Sub now (lastSeen info) > timeout
                    | None \<Rightarrow> False) order"

definition markPaused :: "vmStateManager \<Rightarrow> string \<Rightarrow> vmStateManager" where
  "markPaused m appName =
     (case vms m appName of
        Some info \<Rightarrow> m\<lparr>vms := (vms m)(appName \<mapsto> info\<lparr>status := statusPaused\<rparr>)\<rparr>
      | None \<Rightarrow> m)"

definition getHostname :: "vmStateManager \<Rightarrow> string \<Rightarrow> string" where
  "getHostname m appName =
     (case vms m appName of Some info \<Rightarrow> hostname info | None \<Rightarrow> [])"

section \<open>The module: requests, wake goroutines and the idle watcher\<close>

text \<open>
  The manager is shared by the goroutines of the module: one goroutine for each request
  (\<^verbatim>\<open>ServeHTTP\<close> calls \<^verbatim>\<open>ensureRunning\<close>, then \<^verbatim>\<open>touchLastSeen\<close>), one for each
  \<^verbatim>\<open>go m.doWake\<close>, and the idle watcher. A goroutine advances by one step at a time; a
  step is one critical section of the manager (the code between \<^verbatim>\<open>m.mu.Lock()\<close> and the
  matching unlock), one read of a record outside the lock, or the return of one call of
  the SDK client. Steps of different goroutines interleave in any order.
\<close>

subsection \<open>A request\<close>

text \<open>Where a request stands in \<^verbatim>\<open>ServeHTTP\<close> and \<^verbatim>\<open>ensureRunning\<close>.\<close>

datatype pc =
    AtLookup
  | AtDescribe
  | AtStore "node list"
  | AtSwitch
  | AtInitiate
  | AtWait
  | AtSelect "nat option"
  | AtWakeFired
  | Returned "error + string"
  | Served
  | Panicked panic

record request =
  rkey :: string
  rpc :: pc

text \<open>A goroutine started by \<^verbatim>\<open>go m.doWake(appName, hostname)\<close>.\<close>

record wake =
  wapp :: string
  whost :: string
  wdone :: bool

subsection \<open>The idle watcher (runIdleWatcher, pauseIdleVMs)\<close>

text \<open>What \<^verbatim>\<open>rs.client.PauseVM\<close> does: it returns nil or an error, or it panics.\<close>

datatype pause_result = PauseOk | PauseErr error | PausePanic

text \<open>
  Where the watcher stands: blocked in the \<^verbatim>\<open>select\<close> of \<^verbatim>\<open>runIdleWatcher\<close>; at the
  head of the loop of \<^verbatim>\<open>pauseIdleVMs\<close> with the idle keys still to visit; in the call of
  \<^verbatim>\<open>PauseVM\<close> for a key and its hostname; before \<^verbatim>\<open>markPaused\<close> for a key; returned
  after \<^verbatim>\<open>ctx.Done()\<close>; returned through the deferred \<^verbatim>\<open>recover\<close>.
\<close>

datatype wstate =
    WSelect
  | WLoop "string list"
  | WPauseVM string string "string list"
  | WMarkPaused string "string list"
  | WStopped
  | WRecovered

record system =
  mgr :: vmStateManager
  requests :: "request list"
  wakes :: "wake list"
  watcher :: wstate
  idleTimeout :: duration
  wakeTimeout :: duration
  crashed :: bool

text \<open>
  \<^verbatim>\<open>Provision\<close>: a new manager, and the watcher started (it logs and blocks in its
  \<^verbatim>\<open>select\<close>).
\<close>

definition provision :: "duration \<Rightarrow> duration \<Rightarrow> system" where
  "provision idleT wakeT =
     \<lparr>mgr = newVMStateManager\<lparr>logs := [''idle watcher started'']\<rparr>,
      requests = [], wakes = [], watcher = WSelect,
      idleTimeout = idleT, wakeTimeout = wakeT, crashed = False\<rparr>"

definition setpc :: "system \<Rightarrow> nat \<Rightarrow> pc \<Rightarrow> system" where
  "setpc s i p = s\<lparr>requests := (requests s)[i := (requests s ! i)\<lparr>rpc := p\<rparr>]\<rparr>"

definition logMsg :: "string \<Rightarrow> vmStateManager \<Rightarrow> vmStateManager" where
  "logMsg msg m = m\<lparr>logs := logs m @ [msg]\<rparr>"

text \<open>
  One step of request \<open>i\<close> at time \<open>now\<close>: the first critical section of \<^verbatim>\<open>lookup\<close>
  (on a miss the describe call is issued), the second one, the \<^verbatim>\<open>switch\<close> of
  \<^verbatim>\<open>ensureRunning\<close> on \<^verbatim>\<open>info.status\<close>, \<^verbatim>\<open>initiateWake\<close>, the read of
  \<^verbatim>\<open>info.wakeCh\<close> on entering the \<^verbatim>\<open>select\<close>, the read of \<^verbatim>\<open>info.wakeErr\<close> after the
  channel fired, and \<^verbatim>\<open>touchLastSeen\<close> after a successful return.
\<close>

definition stepRequest :: "system \<Rightarrow> nat \<Rightarrow> time \<Rightarrow> system" where
  "stepRequest s i now =
     (let k = rkey (requests s ! i); m = mgr s in
      case rpc (requests s ! i) of
        AtLookup \<Rightarrow>
          (case vms m k of
             Some info \<Rightarrow> setpc s i AtSwitch
           | None \<Rightarrow>
               setpc (s\<lparr>mgr := m\<lparr>calls := calls m @ [GetHostGroupNodes k]\<rparr>\<rparr>) i AtDescribe)
      | AtStore nodes \<Rightarrow> setpc (s\<lparr>mgr := fst (lookup_store m k nodes now)\<rparr>) i AtSwitch
      | AtSwitch \<Rightarrow>
          (case vms m k of
             None \<Rightarrow> setpc s i (Panicked NilDereference)
           | Some info \<Rightarrow>
               if status info = statusNotFound then setpc s i (Returned (Inl (AppNotFound k)))
               else if status info = statusRunning then setpc s i (Returned (Inr (ip info)))
               else if status info = statusWaking then setpc s i AtWait
               else if status info = statusPaused \<or> status info = statusUnknown
                 then setpc s i AtInitiate
               else setpc s i (Returned (Inl (UnexpectedStatus k))))
      | AtInitiate \<Rightarrow>
          (case initiateWake m k of
             (m', Return r) \<Rightarrow> setpc (s\<lparr>mgr := m'\<rparr>) i (Returned r)
           | (m', WaitForWake) \<Rightarrow> setpc (s\<lparr>mgr := m'\<rparr>) i AtWait
           | (m', StartedWake h) \<Rightarrow>
               setpc (s\<lparr>mgr := m',
                         wakes := wakes s @ [\<lparr>wapp = k, whost = h, wdone = False\<rparr>]\<rparr>) i AtWait
           | (m', Panics p) \<Rightarrow> setpc (s\<lparr>mgr := m'\<rparr>) i (Panicked p))
      | AtWait \<Rightarrow>
          (case vms m k of
             None \<Rightarrow> setpc s i (Panicked NilDereference)
           | Some info \<Rightarrow> setpc s i (AtSelect (wakeCh info)))
      | AtWakeFired \<Rightarrow>
          (case vms m k of
             None \<Rightarrow> setpc s i (Panicked NilDereference)
           | Some info \<Rightarrow>
               setpc s i (Returned (waitForWake info k (wakeTimeout s) WakeChClosed)))
      | Returned (Inr a) \<Rightarrow> setpc (s\<lparr>mgr := touchLastSeen m k now\<rparr>) i Served
      | _ \<Rightarrow> s)"

text \<open>
  The \<^verbatim>\<open>select\<close> of \<^verbatim>\<open>waitForWake\<close> for request \<open>i\<close>: the channel case can fire only
  when the channel the request waits on is closed (a nil channel never fires).
\<close>

definition selectFires :: "system \<Rightarrow> nat \<Rightarrow> select_case \<Rightarrow> system" where
  "selectFires s i sc =
     (let k = rkey (requests s ! i) in
      case rpc (requests s ! i) of
        AtSelect ch \<Rightarrow>
          (case sc of
             WakeChClosed \<Rightarrow>
               (case ch of
                  Some c \<Rightarrow> if c \<in> closed (mgr s) then setpc s i AtWakeFired else s
                | None \<Rightarrow> s)
           | TimerFired \<Rightarrow>
               setpc s i (Returned (Inl (WakeTimedOut k (wakeTimeout s))))
           | CtxDone \<Rightarrow> setpc s i (Returned (Inl ContextError)))
      | _ \<Rightarrow> s)"

text \<open>
  \<^verbatim>\<open>ResumeVM\<close> of wake goroutine \<open>j\<close> returns \<open>err\<close> and \<^verbatim>\<open>finishWake\<close> runs. A panic
  there is not recovered: the process ends.
\<close>

definition resumeReturns :: "system \<Rightarrow> nat \<Rightarrow> error option \<Rightarrow> system" where
  "resumeReturns s j err =
     (let w = wakes s ! j in
      if wdone w then s
      else case doWake (mgr s) (wapp w) (whost w) err of
             Inl p \<Rightarrow> s\<lparr>crashed := True\<rparr>
           | Inr m' \<Rightarrow> s\<lparr>mgr := m', wakes := (wakes s)[j := w\<lparr>wdone := True\<rparr>]\<rparr>)"

text \<open>
  The ticker fires while the watcher is in its \<^verbatim>\<open>select\<close>: \<^verbatim>\<open>pauseIdleVMs\<close> starts
  with \<^verbatim>\<open>idleApps\<close>. \<open>order\<close> must be an enumeration of the keys of the map.
\<close>

definition tick :: "system \<Rightarrow> time \<Rightarrow> string list \<Rightarrow> system" where
  "tick s now order =
     (if watcher s = WSelect \<and> distinct order \<and> set order = dom (vms (mgr s))
      then s\<lparr>watcher := WLoop (idleApps (mgr s) (idleTimeout s) now order)\<rparr>
      else s)"

text \<open>
  A step of the loop of \<^verbatim>\<open>pauseIdleVMs\<close>: \<^verbatim>\<open>getHostname\<close> for the next key, or
  \<^verbatim>\<open>markPaused\<close> after a successful pause; when the keys are used up the tick is over.
\<close>

definition watcherStep :: "system \<Rightarrow> system" where
  "watcherStep s =
     (case watcher s of
        WLoop [] \<Rightarrow> s\<lparr>watcher := WSelect\<rparr>
      | WLoop (k # ks) \<Rightarrow>
          (let h = getHostname (mgr s) k in
           if h = [] then s\<lparr>watcher := WLoop ks\<rparr>
           else s\<lparr>mgr := logMsg ''pausing idle VM'' (mgr s), watcher := WPauseVM k h ks\<rparr>)
      | WMarkPaused k ks \<Rightarrow>
          s\<lparr>mgr := logMsg ''VM paused successfully'' (markPaused (mgr s) k),
            watcher := WLoop ks\<rparr>
      | _ \<Rightarrow> s)"

text \<open>
  \<^verbatim>\<open>PauseVM\<close> returns or panics. The only \<^verbatim>\<open>recover\<close> is the one deferred at the top of
  \<^verbatim>\<open>runIdleWatcher\<close>: a panic leaves the loops, the deferred function logs it and
  \<^verbatim>\<open>runIdleWatcher\<close> returns.
\<close>

definition pauseReturns :: "system \<Rightarrow> pause_result \<Rightarrow> system" where
  "pauseReturns s r =
     (case watcher s of
        WPauseVM k h ks \<Rightarrow>
          (let m = (mgr s)\<lparr>calls := calls (mgr s) @ [PauseVM h]\<rparr> in
           case r of
             PauseOk \<Rightarrow> s\<lparr>mgr := m, watcher := WMarkPaused k ks\<rparr>
           | PauseErr e \<Rightarrow> s\<lparr>mgr := logMsg ''failed to pause VM'' m, watcher := WLoop ks\<rparr>
           | PausePanic \<Rightarrow>
               s\<lparr>mgr := logMsg ''idle watcher panic recovered'' m, watcher := WRecovered\<rparr>)
      | _ \<Rightarrow> s)"

text \<open>\<^verbatim>\<open>ctx.Done()\<close> fires while the watcher is in its \<^verbatim>\<open>select\<close>.\<close>

definition stopWatcher :: "system \<Rightarrow> system" where
  "stopWatcher s =
     (if watcher s = WSelect
      then s\<lparr>mgr := logMsg ''idle watcher stopped'' (mgr s), watcher := WStopped\<rparr>
      else s)"

subsection \<open>Steps and reachable states\<close>

datatype event =
    Request string
  | Step nat time
  | DescribeReturns nat "error + node list"
  | SelectFires nat select_case
  | ResumeReturns nat "error option"
  | Tick time "string list"
  | WatcherStep
  | PauseReturns pause_result
  | Stop

definition describeReturns :: "system \<Rightarrow> nat \<Rightarrow> error + node list \<Rightarrow> system" where
  "describeReturns s i res =
     (let k = rkey (requests s ! i) in
      case rpc (requests s ! i) of
        AtDescribe \<Rightarrow>
          (case res of
             Inl err \<Rightarrow> setpc s i (Returned (Inl (FetchingHostGroup k err)))
           | Inr nodes \<Rightarrow> setpc s i (AtStore nodes))
      | _ \<Rightarrow> s)"

definition step :: "event \<Rightarrow> system \<Rightarrow> system" where
  "step e s =
     (if crashed s then s
      else case e of
        Request k \<Rightarrow> s\<lparr>requests := requests s @ [\<lparr>rkey = k, rpc = AtLookup\<rparr>]\<rparr>
      | Step i now \<Rightarrow> if i < length (requests s) then stepRequest s i now else s
      | DescribeReturns i res \<Rightarrow>
          if i < length (requests s) then describeReturns s i res else s
      | SelectFires i sc \<Rightarrow> if i < length (requests s) then selectFires s i sc else s
      | ResumeReturns j err \<Rightarrow> if j < length (wakes s) then resumeReturns s j err else s
      | Tick now order \<Rightarrow> tick s now order
      | WatcherStep \<Rightarrow> watcherStep s
      | PauseReturns r \<Rightarrow> pauseReturns s r
      | Stop \<Rightarrow> stopWatcher s)"

fun run :: "event list \<Rightarrow> system \<Rightarrow> system" where
  "run [] s = s"
| "run (e # es) s = run es (step e s)"

inductive reachable :: "system \<Rightarrow> bool" where
  provisioned: "reachable (provision idleT wakeT)"
| stepped: "reachable s \<Longrightarrow> reachable (step e s)"

section \<open>A scenario\<close>

text \<open>
  The key \<open>alpha\<close> of the scenario: the node the control plane reports for it, and the
  manager after the first \<^verbatim>\<open>lookup\<close> of the key at time \<open>now\<close>.
\<close>

definition alphaNode :: "string \<Rightarrow> node" where
  "alphaNode st = \<lparr>nodeHostname = ''vm-alpha'', nodeIP = ''10.0.0.5'', nodeStatus = st\<rparr>"

definition alphaSeen :: "string \<Rightarrow> time \<Rightarrow> vmStateManager" where
  "alphaSeen st now = fst (lookup newVMStateManager ''alpha'' (Inr [alphaNode st]) now)"

section \<open>Invariants of the reachable states\<close>

text \<open>
  The five constants of \<^verbatim>\<open>vmStatus\<close>.
\<close>

definition validStatus :: "vmStatus \<Rightarrow> bool" where
  "validStatus st \<longleftrightarrow>
     st = statusUnknown \<or> st = statusRunning \<or> st = statusPaused \<or> st = statusWaking
     \<or> st = statusNotFound"

text \<open>
  A record is in order, for the set \<open>cl\<close> of closed channels and the next channel
  address \<open>n\<close>: its status is one of the five, a Waking record has a channel, and a
  channel it has was made before and is open exactly when the record is Waking.
\<close>

definition okRecord :: "nat set \<Rightarrow> nat \<Rightarrow> vmInfo \<Rightarrow> bool" where
  "okRecord cl n info \<longleftrightarrow>
     validStatus (status info) \<and>
     (status info = statusWaking \<longrightarrow> wakeCh info \<noteq> None) \<and>
     (\<forall>c. wakeCh info = Some c \<longrightarrow>
        c < n \<and> (status info = statusWaking \<longleftrightarrow> c \<notin> cl))"

text \<open>
  The manager is in order: closed channels were made before, every record is in order,
  and no two records have the same channel.
\<close>

definition okManager :: "vmStateManager \<Rightarrow> bool" where
  "okManager m \<longleftrightarrow>
     (\<forall>c \<in> closed m. c < nextCh m) \<and>
     (\<forall>k info. vms m k = Some info \<longrightarrow> okRecord (closed m) (nextCh m) info) \<and>
     (\<forall>k k' i i' c. vms m k = Some i \<longrightarrow> vms m k' = Some i' \<longrightarrow>
        wakeCh i = Some c \<longrightarrow> wakeCh i' = Some c \<longrightarrow> k = k')"

text \<open>
  The key has a record, with this status.
\<close>

definition hasStatus :: "vmStateManager \<Rightarrow> string \<Rightarrow> vmStatus \<Rightarrow> bool" where
  "hasStatus m k st \<longleftrightarrow> (case vms m k of Some info \<Rightarrow> status info = st | None \<Rightarrow> False)"

text \<open>
  The number of wake goroutines for a key whose \<^verbatim>\<open>ResumeVM\<close> has not returned yet.
\<close>

primrec pending :: "wake list \<Rightarrow> string \<Rightarrow> nat" where
  "pending [] k = 0"
| "pending (w # ws) k = (if wapp w = k \<and> \<not> wdone w then 1 else 0) + pending ws k"

text \<open>
  The places of \<^verbatim>\<open>ensureRunning\<close> where the request holds the pointer \<^verbatim>\<open>info\<close> that
  \<^verbatim>\<open>lookup\<close> returned.
\<close>

fun holdsInfo :: "pc \<Rightarrow> bool" where
  "holdsInfo AtSwitch = True"
| "holdsInfo AtInitiate = True"
| "holdsInfo AtWait = True"
| "holdsInfo (AtSelect ch) = True"
| "holdsInfo AtWakeFired = True"
| "holdsInfo _ = False"

text \<open>
  A request is in order: where it holds \<^verbatim>\<open>info\<close> the key has a record; before
  \<^verbatim>\<open>initiateWake\<close> that record is not NotFound; it has not returned the error
  \<open>unexpected status\<close> and has not panicked.
\<close>

definition okRequest :: "vmStateManager \<Rightarrow> request \<Rightarrow> bool" where
  "okRequest m r \<longleftrightarrow>
     (holdsInfo (rpc r) \<longrightarrow> vms m (rkey r) \<noteq> None) \<and>
     (rpc r = AtInitiate \<longrightarrow> \<not> hasStatus m (rkey r) statusNotFound) \<and>
     (\<forall>k. rpc r \<noteq> Returned (Inl (UnexpectedStatus k))) \<and>
     (\<forall>p. rpc r \<noteq> Panicked p)"

text \<open>
  The keys the watcher still has to visit in the current tick, the one in hand first.
\<close>

fun wkeys :: "wstate \<Rightarrow> string list" where
  "wkeys (WLoop ks) = ks"
| "wkeys (WPauseVM k h ks) = k # ks"
| "wkeys (WMarkPaused k ks) = k # ks"
| "wkeys _ = []"

text \<open>
  The invariant of the module: the manager and every request are in order; a key has one
  wake goroutine under way when its record is Waking and none otherwise; the keys the
  watcher still has to visit are distinct and their records are Running.
\<close>

definition sysInv :: "system \<Rightarrow> bool" where
  "sysInv s \<longleftrightarrow>
     okManager (mgr s) \<and>
     (\<forall>k. pending (wakes s) k = (if hasStatus (mgr s) k statusWaking then 1 else 0)) \<and>
     (\<forall>r \<in> set (requests s). okRequest (mgr s) r) \<and>
     distinct (wkeys (watcher s)) \<and>
     (\<forall>k \<in> set (wkeys (watcher s)). hasStatus (mgr s) k statusRunning)"

text \<open>
  Relations between the manager before and after a step: no record is removed and an
  existing record is NotFound after the step exactly when it was before; the Waking
  records are the same; the Running records stay Running.
\<close>

definition grows :: "vmStateManager \<Rightarrow> vmStateManager \<Rightarrow> bool" where
  "grows m m' \<longleftrightarrow>
     (\<forall>k. vms m k \<noteq> None \<longrightarrow> vms m' k \<noteq> None \<and>
           (hasStatus m' k statusNotFound \<longleftrightarrow> hasStatus m k statusNotFound))"

definition sameWaking :: "vmStateManager \<Rightarrow> vmStateManager \<Rightarrow> bool" where
  "sameWaking m m' \<longleftrightarrow> (\<forall>k. hasStatus m' k statusWaking = hasStatus m k statusWaking)"

definition keepsRunning :: "vmStateManager \<Rightarrow> vmStateManager \<Rightarrow> bool" where
  "keepsRunning m m' \<longleftrightarrow> (\<forall>k. hasStatus m k statusRunning \<longrightarrow> hasStatus m' k statusRunning)"

section \<open>Steps of the manager and of a record\<close>



section \<open>Traces of the scenario\<close>

text \<open>
  The key \<open>alpha\<close> is reported Running and served; a tick finds it idle and the call of
  \<^verbatim>\<open>PauseVM\<close> panics.
\<close>

definition panicTrace :: "event list" where
  "panicTrace =
     [Request ''alpha'', Step 0 0, DescribeReturns 0 (Inr [alphaNode ''Running'']), Step 0 0,
      Step 0 1, Step 0 2, Tick 100 [''alpha''], WatcherStep, PauseReturns PausePanic]"


section \<open>Requests waiting for a wake\<close>




section \<open>Properties of the manager's operations\<close>

lemmas status_defs =
  statusUnknown_def statusRunning_def statusPaused_def statusWaking_def statusNotFound_def

lemma alphaSeen_eq:
  "alphaSeen st now =
     \<lparr>vms = [''alpha'' \<mapsto> \<lparr>hostname = ''vm-alpha'', ip = ''10.0.0.5'',
                status = nodeStatusToVM st, lastSeen = now, wakeCh = None, wakeErr = None\<rparr>],
      closed = {}, nextCh = 0, calls = [GetHostGroupNodes ''alpha''], logs = []\<rparr>"
  by (simp add: alphaSeen_def lookup_def lookup_store_def newVMStateManager_def alphaNode_def Let_def)

lemma alphaWaking_eq:
  "fst (initiateWake (alphaSeen ''Paused'' 0) ''alpha'') =
     \<lparr>vms = [''alpha'' \<mapsto> \<lparr>hostname = ''vm-alpha'', ip = ''10.0.0.5'',
                status = statusWaking, lastSeen = 0, wakeCh = Some 0, wakeErr = None\<rparr>],
      closed = {}, nextCh = Suc 0, calls = [GetHostGroupNodes ''alpha''],
      logs = [''waking VM'']\<rparr>"
  by (simp add: alphaSeen_eq initiateWake_def nodeStatusToVM_def status_defs Let_def)

text \<open>
  C2. When \<^verbatim>\<open>finishWake\<close> runs for a key whose record is Waking (its wake channel
  \<open>c\<close> still open): with no error the record becomes Running, \<open>lastSeen\<close> is left as it
  was and the channel is closed; with an error \<open>e\<close> the record becomes Paused and
  \<open>wakeErr\<close> holds \<open>e\<close>, and the next \<^verbatim>\<open>initiateWake\<close> for the key starts a new wake
  and resets \<open>wakeErr\<close> to none. Whenever \<^verbatim>\<open>initiateWake\<close> starts a wake, \<open>wakeErr\<close>
  is none afterwards.
\<close>

theorem finishWake_completion:
  assumes "vms m appName = Some info" and "status info = statusWaking"
    and "wakeCh info = Some c" and "c \<notin> closed m"
  shows "(\<exists>m' info'. finishWake m appName None = Inr m' \<and> vms m' appName = Some info'
            \<and> status info' = statusRunning \<and> lastSeen info' = lastSeen info
            \<and> wakeErr info' = None \<and> c \<in> closed m')
       \<and> (\<exists>m' info'. finishWake m appName (Some e) = Inr m' \<and> vms m' appName = Some info'
            \<and> status info' = statusPaused \<and> wakeErr info' = Some e
            \<and> lastSeen info' = lastSeen info \<and> c \<in> closed m'
            \<and> (\<exists>m'' info''. initiateWake m' appName = (m'', StartedWake (hostname info))
                  \<and> vms m'' appName = Some info'' \<and> status info'' = statusWaking
                  \<and> wakeErr info'' = None))
       \<and> (\<forall>m0 k m1 h. initiateWake m0 k = (m1, StartedWake h) \<longrightarrow>
             (\<exists>i. vms m1 k = Some i \<and> status i = statusWaking \<and> wakeErr i = None))"
  using assms
  by (auto simp: finishWake_def initiateWake_def Let_def status_defs split: option.splits if_splits)

theorem finishWake_completion_witness:
  "(\<exists>m' info'. finishWake (fst (initiateWake (alphaSeen ''Paused'' 0) ''alpha'')) ''alpha'' None = Inr m'
        \<and> vms m' ''alpha'' = Some info' \<and> status info' = statusRunning \<and> lastSeen info' = 0
        \<and> wakeErr info' = None \<and> 0 \<in> closed m')
   \<and> (\<exists>m' info'. finishWake (fst (initiateWake (alphaSeen ''Paused'' 0) ''alpha'')) ''alpha''
           (Some (ClientError ''resume failed'')) = Inr m'
        \<and> vms m' ''alpha'' = Some info' \<and> status info' = statusPaused
        \<and> wakeErr info' = Some (ClientError ''resume failed''))"
proof -
  let ?m = "fst (initiateWake (alphaSeen ''Paused'' 0) ''alpha'')"
  let ?i = "\<lparr>hostname = ''vm-alpha'', ip = ''10.0.0.5'', status = statusWaking,
             lastSeen = 0, wakeCh = Some 0, wakeErr = None\<rparr>"
  have h1: "vms ?m ''alpha'' = Some ?i" by (simp add: alphaWaking_eq)
  have h2: "status ?i = statusWaking" by simp
  have h3: "wakeCh ?i = Some 0" by simp
  have h4: "0 \<notin> closed ?m" by (simp add: alphaWaking_eq)
  show ?thesis
    using finishWake_completion[OF h1 h2 h3 h4, of "ClientError ''resume failed''"] by auto
qed

text \<open>
  C4. For a key that has a cached record, \<^verbatim>\<open>lookup\<close> returns that record and leaves
  the manager as it is, and \<^verbatim>\<open>ensureRunning\<close> makes no call on the client (the call
  record is unchanged, whatever the describe call would have returned): a Running record
  gives the cached address at once, a NotFound record the error \<open>not found\<close>.
\<close>

theorem cached_no_describe:
  assumes "vms m appName = Some info"
  shows "lookup m appName res now = (m, Inr info)
       \<and> calls (fst (ensureRunning m appName res now)) = calls m
       \<and> (status info = statusRunning \<longrightarrow>
            ensureRunning m appName res now = (m, Return (Inr (ip info))))
       \<and> (status info = statusNotFound \<longrightarrow>
            ensureRunning m appName res now = (m, Return (Inl (AppNotFound appName))))"
  using assms
  by (auto simp: lookup_def ensureRunning_def initiateWake_def Let_def status_defs)

theorem cached_no_describe_witness:
  "ensureRunning (alphaSeen ''Running'' 0) ''alpha'' (Inl (ClientError ''unreachable'')) 7 =
     (alphaSeen ''Running'' 0, Return (Inr ''10.0.0.5''))
   \<and> calls (fst (ensureRunning (alphaSeen ''Running'' 0) ''alpha'' (Inl (ClientError ''unreachable'')) 7))
       = [GetHostGroupNodes ''alpha'']"
proof -
  let ?i = "\<lparr>hostname = ''vm-alpha'', ip = ''10.0.0.5'', status = statusRunning,
             lastSeen = 0, wakeCh = None, wakeErr = None\<rparr>"
  have h: "vms (alphaSeen ''Running'' 0) ''alpha'' = Some ?i"
    by (simp add: alphaSeen_eq nodeStatusToVM_def)
  have c: "calls (alphaSeen ''Running'' 0) = [GetHostGroupNodes ''alpha'']"
    by (simp add: alphaSeen_eq)
  show ?thesis
    using cached_no_describe[OF h, of "Inl (ClientError ''unreachable'')" 7] c by simp
qed



text \<open>
  C8. \<^verbatim>\<open>lookup\<close> fails exactly when the key has no record and the describe call
  fails. Then the error returned wraps the error of the call, the map of records is
  unchanged (no record is stored for the key), and a second \<^verbatim>\<open>lookup\<close> of the key
  calls describe again.
\<close>

theorem lookup_fails_iff_describe_fails:
  "((\<exists>e. snd (lookup m k res now) = Inl e) \<longleftrightarrow> (vms m k = None \<and> (\<exists>e. res = Inl e)))
   \<and> (vms m k = None \<longrightarrow> res = Inl e \<longrightarrow>
        lookup m k res now =
          (m\<lparr>calls := calls m @ [GetHostGroupNodes k]\<rparr>, Inl (FetchingHostGroup k e))
        \<and> vms (fst (lookup m k res now)) = vms m
        \<and> calls (fst (lookup (fst (lookup m k res now)) k res' now')) =
            calls m @ [GetHostGroupNodes k, GetHostGroupNodes k])"
  by (auto simp: lookup_def lookup_store_def Let_def split: option.splits sum.splits list.splits prod.splits)

theorem lookup_fails_iff_describe_fails_witness:
  "lookup newVMStateManager ''alpha'' (Inl (ClientError ''unreachable'')) 0 =
     (newVMStateManager\<lparr>calls := [GetHostGroupNodes ''alpha'']\<rparr>,
      Inl (FetchingHostGroup ''alpha'' (ClientError ''unreachable'')))
   \<and> vms (fst (lookup newVMStateManager ''alpha'' (Inl (ClientError ''unreachable'')) 0)) = Map.empty
   \<and> calls (fst (lookup (fst (lookup newVMStateManager ''alpha'' (Inl (ClientError ''unreachable'')) 0))
         ''alpha'' (Inr [alphaNode ''Paused'']) 1)) =
       [GetHostGroupNodes ''alpha'', GetHostGroupNodes ''alpha'']"
proof -
  have h: "vms newVMStateManager ''alpha'' = None" by (simp add: newVMStateManager_def)
  have c: "calls newVMStateManager = []" "vms newVMStateManager = Map.empty"
    by (simp_all add: newVMStateManager_def)
  show ?thesis
    using lookup_fails_iff_describe_fails[of newVMStateManager "''alpha''"
        "Inl (ClientError ''unreachable'')" 0 "ClientError ''unreachable''"
        "Inr [alphaNode ''Paused'']" 1] h c
    by auto
qed

text \<open>
  C9, as the claim states it, fails: \<^verbatim>\<open>lookup\<close> stores \<open>lastSeen = now\<close> in the record
  it makes for a node reported Paused, and \<^verbatim>\<open>touchLastSeen\<close> writes \<open>lastSeen\<close> on a
  Paused record.
\<close>

theorem lastSeen_written_when_paused:
  "snd (lookup newVMStateManager ''alpha'' (Inr [alphaNode ''Paused'']) 5) =
      Inr \<lparr>hostname = ''vm-alpha'', ip = ''10.0.0.5'', status = statusPaused, lastSeen = 5,
           wakeCh = None, wakeErr = None\<rparr>
   \<and> vms (touchLastSeen (alphaSeen ''Paused'' 5) ''alpha'' 9) ''alpha'' =
      Some \<lparr>hostname = ''vm-alpha'', ip = ''10.0.0.5'', status = statusPaused, lastSeen = 9,
           wakeCh = None, wakeErr = None\<rparr>
   \<and> zeroTime \<noteq> 5"
  by (simp add: alphaSeen_eq touchLastSeen_def nodeStatusToVM_def lookup_def lookup_store_def
        newVMStateManager_def alphaNode_def Let_def zeroTime_def)

text \<open>
  C9, amended. \<open>lastSeen\<close> is written by two operations only. \<^verbatim>\<open>markPaused\<close>,
  \<^verbatim>\<open>initiateWake\<close>, \<^verbatim>\<open>finishWake\<close> and \<^verbatim>\<open>lookup\<close> leave the \<open>lastSeen\<close> of every
  existing record as it was, and so does \<^verbatim>\<open>touchLastSeen\<close> for the records of other
  keys. \<^verbatim>\<open>touchLastSeen\<close> sets the \<open>lastSeen\<close> of an existing record to \<open>now\<close> whatever
  its status, which it keeps. \<^verbatim>\<open>lookup\<close>, making the record of a key that had none,
  sets \<open>lastSeen\<close> to \<open>now\<close> when a node was reported (Running, Paused or Unknown), and
  leaves it the zero time in a NotFound record.
\<close>

theorem lastSeen_writers:
  "(\<forall>info. vms m k = Some info \<longrightarrow>
      (\<exists>i. vms (markPaused m a) k = Some i \<and> lastSeen i = lastSeen info)
    \<and> (\<exists>i. vms (fst (initiateWake m a)) k = Some i \<and> lastSeen i = lastSeen info)
    \<and> (\<forall>m'. finishWake m a err = Inr m' \<longrightarrow>
          (\<exists>i. vms m' k = Some i \<and> lastSeen i = lastSeen info))
    \<and> (\<exists>i. vms (fst (lookup_store m a nodes now)) k = Some i \<and> lastSeen i = lastSeen info)
    \<and> (k \<noteq> a \<longrightarrow> (\<exists>i. vms (touchLastSeen m a now) k = Some i \<and> lastSeen i = lastSeen info))
    \<and> (\<exists>i. vms (touchLastSeen m k now) k = Some i \<and> lastSeen i = now
           \<and> status i = status info))
   \<and> (vms m k = None \<longrightarrow>
        (\<exists>i. vms (fst (lookup_store m k nodes now)) k = Some i
           \<and> lastSeen i = (if nodes = [] then zeroTime else now)
           \<and> (status i = statusNotFound \<longleftrightarrow> nodes = [])))"
  by (auto simp: markPaused_def initiateWake_def finishWake_def lookup_store_def touchLastSeen_def
        Let_def nodeStatusToVM_def status_defs split: option.splits if_splits list.splits)

theorem lastSeen_writers_witness:
  "(\<exists>i. vms (markPaused (alphaSeen ''Running'' 3) ''alpha'') ''alpha'' = Some i \<and> lastSeen i = 3)
   \<and> (\<exists>i. vms (touchLastSeen (alphaSeen ''Paused'' 3) ''alpha'' 8) ''alpha'' = Some i
          \<and> lastSeen i = 8 \<and> status i = statusPaused)"
proof -
  let ?i = "\<lparr>hostname = ''vm-alpha'', ip = ''10.0.0.5'', status = statusRunning,
             lastSeen = 3, wakeCh = None, wakeErr = None\<rparr>"
  let ?j = "\<lparr>hostname = ''vm-alpha'', ip = ''10.0.0.5'', status = statusPaused,
             lastSeen = 3, wakeCh = None, wakeErr = None\<rparr>"
  have h: "vms (alphaSeen ''Running'' 3) ''alpha'' = Some ?i"
    by (simp add: alphaSeen_eq nodeStatusToVM_def)
  have g: "vms (alphaSeen ''Paused'' 3) ''alpha'' = Some ?j"
    by (simp add: alphaSeen_eq nodeStatusToVM_def)
  show ?thesis
    using lastSeen_writers[of "alphaSeen ''Running'' 3" "''alpha''" "''alpha''" None "[]" 8] h
      lastSeen_writers[of "alphaSeen ''Paused'' 3" "''alpha''" "''alpha''" None "[]" 8] g
    by simp
qed

section \<open>The invariant holds in every reachable state\<close>

lemma okManagerD1: "okManager m \<Longrightarrow> c \<in> closed m \<Longrightarrow> c < nextCh m"
  by (simp add: okManager_def)

lemma okManagerD2: "okManager m \<Longrightarrow> vms m k = Some info \<Longrightarrow> okRecord (closed m) (nextCh m) info"
  by (simp add: okManager_def)

lemma okManagerD3:
  "okManager m \<Longrightarrow> vms m k = Some i \<Longrightarrow> vms m k' = Some i' \<Longrightarrow>
   wakeCh i = Some c \<Longrightarrow> wakeCh i' = Some c \<Longrightarrow> k = k'"
  unfolding okManager_def by blast

lemma okManagerI:
  assumes "\<And>c. c \<in> closed m \<Longrightarrow> c < nextCh m"
    and "\<And>k info. vms m k = Some info \<Longrightarrow> okRecord (closed m) (nextCh m) info"
    and "\<And>k k' i i' c. vms m k = Some i \<Longrightarrow> vms m k' = Some i' \<Longrightarrow>
           wakeCh i = Some c \<Longrightarrow> wakeCh i' = Some c \<Longrightarrow> k = k'"
  shows "okManager m"
  unfolding okManager_def using assms by blast

lemma okRecord_mono: "okRecord cl n i \<Longrightarrow> n \<le> n' \<Longrightarrow> okRecord cl n' i"
  by (auto simp: okRecord_def)

lemma okRecord_lastSeen [simp]: "okRecord cl n (i\<lparr>lastSeen := t\<rparr>) = okRecord cl n i"
  by (simp add: okRecord_def)

lemma okManager_new: "okManager newVMStateManager"
  by (simp add: okManager_def newVMStateManager_def)

lemma okManager_calls [simp]: "okManager (m\<lparr>calls := cs\<rparr>) = okManager m"
  by (simp add: okManager_def)

lemma okManager_logs [simp]: "okManager (m\<lparr>logs := ls\<rparr>) = okManager m"
  by (simp add: okManager_def)

lemma okManager_logMsg [simp]: "okManager (logMsg msg m) = okManager m"
  by (simp add: logMsg_def)

lemma okRecord_fresh:
  "st \<noteq> statusWaking \<Longrightarrow> validStatus st \<Longrightarrow>
   okRecord cl n \<lparr>hostname = h, ip = a, status = st, lastSeen = t, wakeCh = None, wakeErr = None\<rparr>"
  by (simp add: okRecord_def)

lemma validStatus_node: "validStatus (nodeStatusToVM s)" "nodeStatusToVM s \<noteq> statusWaking"
  by (simp_all add: nodeStatusToVM_def validStatus_def status_defs)

lemma validStatus_consts [simp]:
  "validStatus statusUnknown" "validStatus statusRunning" "validStatus statusPaused"
  "validStatus statusWaking" "validStatus statusNotFound"
  by (simp_all add: validStatus_def)

lemma status_distinct [simp]:
  "statusNotFound \<noteq> statusWaking" "statusRunning \<noteq> statusWaking" "statusPaused \<noteq> statusWaking"
  "statusUnknown \<noteq> statusWaking" "statusWaking \<noteq> statusNotFound" "statusWaking \<noteq> statusRunning"
  "statusWaking \<noteq> statusPaused" "statusWaking \<noteq> statusUnknown"
  "statusRunning \<noteq> statusNotFound" "statusNotFound \<noteq> statusRunning"
  "statusPaused \<noteq> statusNotFound" "statusNotFound \<noteq> statusPaused"
  "statusRunning \<noteq> statusPaused" "statusPaused \<noteq> statusRunning"
  "statusUnknown \<noteq> statusNotFound" "statusNotFound \<noteq> statusUnknown"
  "statusUnknown \<noteq> statusRunning" "statusRunning \<noteq> statusUnknown"
  "statusUnknown \<noteq> statusPaused" "statusPaused \<noteq> statusUnknown"
  by (simp_all add: status_defs)

lemma chans_update:
  assumes D: "\<And>ka kb i i' c. f ka = Some i \<Longrightarrow> f kb = Some i' \<Longrightarrow>
                wakeCh i = Some c \<Longrightarrow> wakeCh i' = Some c \<Longrightarrow> ka = kb"
    and new: "\<And>kb i' c. kb \<noteq> k \<Longrightarrow> f kb = Some i' \<Longrightarrow> wakeCh info' = Some c \<Longrightarrow>
                wakeCh i' \<noteq> Some c"
    and a: "(f(k \<mapsto> info')) ka = Some i" "(f(k \<mapsto> info')) kb = Some i'"
           "wakeCh i = Some c" "wakeCh i' = Some c"
  shows "ka = kb"
proof (cases "ka = k")
  case True
  note ka = this
  show ?thesis
  proof (cases "kb = k")
    case True
    with ka show ?thesis by simp
  next
    case False
    then have "f kb = Some i'" using a(2) by simp
    moreover have "i = info'" using a(1) ka by simp
    ultimately have "wakeCh i' \<noteq> Some c" using new[OF False] a(3) by blast
    then show ?thesis using a(4) by simp
  qed
next
  case False
  note ka = this
  then have fa: "f ka = Some i" using a(1) by simp
  show ?thesis
  proof (cases "kb = k")
    case True
    then have "i' = info'" using a(2) by simp
    then have "wakeCh i \<noteq> Some c" using new[OF ka fa] a(4) by blast
    then show ?thesis using a(3) by simp
  next
    case False
    then have "f kb = Some i'" using a(2) by simp
    then show ?thesis using D[OF fa _ a(3) a(4)] by blast
  qed
qed

lemma okManager_replace:
  assumes ok: "okManager m"
    and r: "okRecord (closed m) (nextCh m) info'"
    and ch: "\<And>kb i' c. kb \<noteq> k \<Longrightarrow> vms m kb = Some i' \<Longrightarrow> wakeCh info' = Some c \<Longrightarrow>
                wakeCh i' \<noteq> Some c"
  shows "okManager (m\<lparr>vms := (vms m)(k \<mapsto> info')\<rparr>)"
proof (rule okManagerI)
  fix c assume "c \<in> closed (m\<lparr>vms := (vms m)(k \<mapsto> info')\<rparr>)"
  then show "c < nextCh (m\<lparr>vms := (vms m)(k \<mapsto> info')\<rparr>)"
    using okManagerD1[OF ok, of c] by simp
next
  fix ka i assume a: "vms (m\<lparr>vms := (vms m)(k \<mapsto> info')\<rparr>) ka = Some i"
  show "okRecord (closed (m\<lparr>vms := (vms m)(k \<mapsto> info')\<rparr>))
          (nextCh (m\<lparr>vms := (vms m)(k \<mapsto> info')\<rparr>)) i"
  proof (cases "ka = k")
    case True
    then show ?thesis using a r by simp
  next
    case False
    then have "vms m ka = Some i" using a by simp
    then show ?thesis using okManagerD2[OF ok] by simp
  qed
next
  fix ka kb i i' c
  assume a: "vms (m\<lparr>vms := (vms m)(k \<mapsto> info')\<rparr>) ka = Some i"
    "vms (m\<lparr>vms := (vms m)(k \<mapsto> info')\<rparr>) kb = Some i'" "wakeCh i = Some c" "wakeCh i' = Some c"
  have a': "((vms m)(k \<mapsto> info')) ka = Some i" "((vms m)(k \<mapsto> info')) kb = Some i'"
    using a by simp_all
  show "ka = kb"
    by (rule chans_update[where f = "vms m" and k = k and info' = info', OF _ _ a' a(3) a(4)])
       (erule (3) okManagerD3[OF ok], erule (2) ch)
qed

lemma other_channel:
  assumes ok: "okManager m" and old: "vms m k = Some info" and kb: "kb \<noteq> k"
    and v: "vms m kb = Some i'" and c: "wakeCh info = Some c"
  shows "wakeCh i' \<noteq> Some c"
proof
  assume "wakeCh i' = Some c"
  then have "kb = k" using okManagerD3[OF ok v old _ c] by simp
  then show False using kb by simp
qed

lemma okManager_insert:
  assumes "okManager m" and "okRecord (closed m) (nextCh m) info" and "wakeCh info = None"
  shows "okManager (m\<lparr>vms := (vms m)(k \<mapsto> info)\<rparr>)"
  using assms by (intro okManager_replace) simp_all

lemma okManager_lookup_store:
  assumes ok: "okManager m" shows "okManager (fst (lookup_store m k nodes now))"
proof (cases "vms m k")
  case (Some i) then show ?thesis using assms by (simp add: lookup_store_def)
next
  case None
  show ?thesis
  proof (cases nodes)
    case Nil
    then show ?thesis using None
      by (simp add: lookup_store_def Let_def okManager_insert[OF ok] okRecord_fresh)
  next
    case (Cons nd rest)
    then show ?thesis using None
      by (simp add: lookup_store_def Let_def okManager_insert[OF ok] okRecord_fresh validStatus_node)
  qed
qed

lemma okManager_touchLastSeen:
  assumes ok: "okManager m" shows "okManager (touchLastSeen m k now)"
proof (cases "vms m k")
  case None then show ?thesis using ok by (simp add: touchLastSeen_def)
next
  case (Some info)
  have "okManager (m\<lparr>vms := (vms m)(k \<mapsto> info\<lparr>lastSeen := now\<rparr>)\<rparr>)"
  proof (rule okManager_replace[OF ok])
    show "okRecord (closed m) (nextCh m) (info\<lparr>lastSeen := now\<rparr>)"
      using okManagerD2[OF ok Some] by simp
  next
    fix kb i' c assume "kb \<noteq> k" "vms m kb = Some i'" "wakeCh (info\<lparr>lastSeen := now\<rparr>) = Some c"
    then show "wakeCh i' \<noteq> Some c" using other_channel[OF ok Some] by simp
  qed
  then show ?thesis using Some by (simp add: touchLastSeen_def)
qed

lemma okManager_markPaused:
  assumes ok: "okManager m" and nw: "\<not> hasStatus m k statusWaking"
  shows "okManager (markPaused m k)"
proof (cases "vms m k")
  case None then show ?thesis using ok by (simp add: markPaused_def)
next
  case (Some info)
  have st: "status info \<noteq> statusWaking" using nw Some by (simp add: hasStatus_def)
  have "okManager (m\<lparr>vms := (vms m)(k \<mapsto> info\<lparr>status := statusPaused\<rparr>)\<rparr>)"
  proof (rule okManager_replace[OF ok])
    show "okRecord (closed m) (nextCh m) (info\<lparr>status := statusPaused\<rparr>)"
      using okManagerD2[OF ok Some] st by (simp add: okRecord_def)
  next
    fix kb i' c assume "kb \<noteq> k" "vms m kb = Some i'" "wakeCh (info\<lparr>status := statusPaused\<rparr>) = Some c"
    then show "wakeCh i' \<noteq> Some c" using other_channel[OF ok Some] by simp
  qed
  then show ?thesis using Some by (simp add: markPaused_def)
qed

lemma okManager_nextCh:
  assumes ok: "okManager m"
  shows "okManager (m\<lparr>nextCh := Suc (nextCh m)\<rparr>)"
proof (rule okManagerI)
  fix c assume "c \<in> closed (m\<lparr>nextCh := Suc (nextCh m)\<rparr>)"
  then show "c < nextCh (m\<lparr>nextCh := Suc (nextCh m)\<rparr>)" using okManagerD1[OF ok, of c] by simp
next
  fix k info assume "vms (m\<lparr>nextCh := Suc (nextCh m)\<rparr>) k = Some info"
  then have "okRecord (closed m) (nextCh m) info" using okManagerD2[OF ok] by simp
  then show "okRecord (closed (m\<lparr>nextCh := Suc (nextCh m)\<rparr>)) (nextCh (m\<lparr>nextCh := Suc (nextCh m)\<rparr>)) info"
    by (simp add: okRecord_mono)
next
  fix ka kb i i' c
  assume "vms (m\<lparr>nextCh := Suc (nextCh m)\<rparr>) ka = Some i"
    "vms (m\<lparr>nextCh := Suc (nextCh m)\<rparr>) kb = Some i'" "wakeCh i = Some c" "wakeCh i' = Some c"
  then show "ka = kb" using okManagerD3[OF ok, of ka i kb i' c] by simp
qed

lemma okManager_initiateWake:
  assumes ok: "okManager m" shows "okManager (fst (initiateWake m k))"
proof (cases "vms m k")
  case None then show ?thesis using ok by (simp add: initiateWake_def)
next
  case (Some info)
  show ?thesis
  proof (cases "status info = statusWaking \<or> status info = statusRunning")
    case True then show ?thesis using ok Some by (auto simp: initiateWake_def)
  next
    case False
    define info' where "info' = info\<lparr>status := statusWaking, wakeCh := Some (nextCh m), wakeErr := None\<rparr>"
    define m1 where "m1 = m\<lparr>nextCh := Suc (nextCh m)\<rparr>"
    have eq: "fst (initiateWake m k) = (m1\<lparr>vms := (vms m1)(k \<mapsto> info')\<rparr>)\<lparr>logs := logs m @ [''waking VM'']\<rparr>"
      using Some False by (simp add: initiateWake_def Let_def info'_def m1_def)
    have ok1: "okManager m1" unfolding m1_def using ok by (rule okManager_nextCh)
    have fresh: "nextCh m \<notin> closed m" using okManagerD1[OF ok, of "nextCh m"] by auto
    have "okManager (m1\<lparr>vms := (vms m1)(k \<mapsto> info')\<rparr>)"
    proof (rule okManager_replace[OF ok1])
      show "okRecord (closed m1) (nextCh m1) info'"
        using fresh by (simp add: okRecord_def info'_def m1_def)
    next
      fix kb i' c assume kb: "kb \<noteq> k" and v: "vms m1 kb = Some i'" and c: "wakeCh info' = Some c"
      have "okRecord (closed m) (nextCh m) i'" using okManagerD2[OF ok, of kb i'] v by (simp add: m1_def)
      then have "wakeCh i' \<noteq> Some (nextCh m)" by (auto simp: okRecord_def)
      then show "wakeCh i' \<noteq> Some c" using c by (simp add: info'_def)
    qed
    then show ?thesis by (simp add: eq)
  qed
qed

lemma okManager_close:
  assumes ok: "okManager m" and old: "vms m k = Some info" and c: "wakeCh info = Some c"
    and nw: "status info' \<noteq> statusWaking" "validStatus (status info')" and ch: "wakeCh info' = Some c"
  shows "okManager (m\<lparr>vms := (vms m)(k \<mapsto> info'), closed := insert c (closed m)\<rparr>)"
proof (rule okManagerI)
  fix d assume "d \<in> closed (m\<lparr>vms := (vms m)(k \<mapsto> info'), closed := insert c (closed m)\<rparr>)"
  then have "d = c \<or> d \<in> closed m" by simp
  moreover have "c < nextCh m" using okManagerD2[OF ok old] c by (simp add: okRecord_def)
  ultimately show "d < nextCh (m\<lparr>vms := (vms m)(k \<mapsto> info'), closed := insert c (closed m)\<rparr>)"
    using okManagerD1[OF ok, of d] by auto
next
  fix ka i assume a: "vms (m\<lparr>vms := (vms m)(k \<mapsto> info'), closed := insert c (closed m)\<rparr>) ka = Some i"
  have "okRecord (insert c (closed m)) (nextCh m) i"
  proof (cases "ka = k")
    case True
    then have "i = info'" using a by simp
    then show ?thesis using nw ch okManagerD2[OF ok old] c by (simp add: okRecord_def)
  next
    case False
    then have v: "vms m ka = Some i" using a by simp
    have "wakeCh i \<noteq> Some c" using other_channel[OF ok old False v c] .
    then show ?thesis using okManagerD2[OF ok v] by (auto simp: okRecord_def)
  qed
  then show "okRecord (closed (m\<lparr>vms := (vms m)(k \<mapsto> info'), closed := insert c (closed m)\<rparr>))
          (nextCh (m\<lparr>vms := (vms m)(k \<mapsto> info'), closed := insert c (closed m)\<rparr>)) i" by simp
next
  fix ka kb i i' d
  assume a: "vms (m\<lparr>vms := (vms m)(k \<mapsto> info'), closed := insert c (closed m)\<rparr>) ka = Some i"
    "vms (m\<lparr>vms := (vms m)(k \<mapsto> info'), closed := insert c (closed m)\<rparr>) kb = Some i'"
    "wakeCh i = Some d" "wakeCh i' = Some d"
  have a': "((vms m)(k \<mapsto> info')) ka = Some i" "((vms m)(k \<mapsto> info')) kb = Some i'"
    using a by simp_all
  have new: "\<And>kb i' e. kb \<noteq> k \<Longrightarrow> vms m kb = Some i' \<Longrightarrow> wakeCh info' = Some e \<Longrightarrow> wakeCh i' \<noteq> Some e"
    using other_channel[OF ok old _ _ c] ch by simp
  show "ka = kb"
    by (rule chans_update[where f = "vms m" and k = k and info' = info', OF _ _ a' a(3) a(4)])
       (erule (3) okManagerD3[OF ok], erule (2) new)
qed

lemma finishWake_cases:
  assumes old: "vms m k = Some info"
  shows "finishWake m k err =
     (let info2 = info\<lparr>wakeErr := err, status := (if err = None then statusRunning else statusPaused)\<rparr>;
          lg = logs m @ [if err = None then ''VM resumed'' else ''VM wake failed'']
      in case wakeCh info of
           None \<Rightarrow> Inr (m\<lparr>vms := (vms m)(k \<mapsto> info2), logs := lg\<rparr>)
         | Some c \<Rightarrow> if c \<in> closed m then Inl CloseOfClosedChannel
                     else Inr (m\<lparr>vms := (vms m)(k \<mapsto> info2), closed := insert c (closed m), logs := lg\<rparr>))"
  using old by (cases err; cases "wakeCh info") (auto simp: finishWake_def Let_def)

lemma okManager_finishWake:
  assumes ok: "okManager m" and fin: "finishWake m k err = Inr m'" shows "okManager m'"
proof (cases "vms m k")
  case None then show ?thesis using ok fin by (simp add: finishWake_def)
next
  case (Some info)
  note old = this
  define info2 where "info2 = info\<lparr>wakeErr := err, status := (if err = None then statusRunning else statusPaused)\<rparr>"
  define lg where "lg = logs m @ [if err = None then ''VM resumed'' else ''VM wake failed'']"
  have st: "status info2 \<noteq> statusWaking" "validStatus (status info2)" by (simp_all add: info2_def)
  have r: "okRecord (closed m) (nextCh m) info" using ok old by (rule okManagerD2)
  show ?thesis
  proof (cases "wakeCh info")
    case None
    then have eq: "m' = (m\<lparr>vms := (vms m)(k \<mapsto> info2)\<rparr>)\<lparr>logs := lg\<rparr>"
      using fin by (simp add: finishWake_cases[OF old] Let_def info2_def lg_def)
    have "okManager (m\<lparr>vms := (vms m)(k \<mapsto> info2)\<rparr>)"
    proof (rule okManager_insert[OF ok])
      show "okRecord (closed m) (nextCh m) info2" using st None by (simp add: okRecord_def info2_def)
      show "wakeCh info2 = None" using None by (simp add: info2_def)
    qed
    then show ?thesis by (simp add: eq)
  next
    case (Some c)
    then have eq: "m' = (m\<lparr>vms := (vms m)(k \<mapsto> info2), closed := insert c (closed m)\<rparr>)\<lparr>logs := lg\<rparr>"
      using fin by (simp add: finishWake_cases[OF old] Let_def info2_def lg_def split: if_splits)
    have "okManager (m\<lparr>vms := (vms m)(k \<mapsto> info2), closed := insert c (closed m)\<rparr>)"
      using ok old Some st by (rule okManager_close) (simp add: info2_def Some)
    then show ?thesis by (simp add: eq)
  qed
qed

lemma vms_lookup_store:
  "vms (fst (lookup_store m k nodes now)) k' =
     (if k' = k \<and> vms m k = None
      then Some (case nodes of
              [] \<Rightarrow> \<lparr>hostname = [], ip = [], status = statusNotFound,
                     lastSeen = zeroTime, wakeCh = None, wakeErr = None\<rparr>
            | nd # _ \<Rightarrow> \<lparr>hostname = nodeHostname nd, ip = nodeIP nd,
                     status = nodeStatusToVM (nodeStatus nd),
                     lastSeen = now, wakeCh = None, wakeErr = None\<rparr>)
      else vms m k')"
  by (simp add: lookup_store_def Let_def split: option.splits list.splits)

lemma vms_touchLastSeen:
  "vms (touchLastSeen m k now) k' =
     (if k' = k then map_option (\<lambda>i. i\<lparr>lastSeen := now\<rparr>) (vms m k) else vms m k')"
  by (simp add: touchLastSeen_def split: option.splits)

lemma vms_markPaused:
  "vms (markPaused m k) k' =
     (if k' = k then map_option (\<lambda>i. i\<lparr>status := statusPaused\<rparr>) (vms m k) else vms m k')"
  by (simp add: markPaused_def split: option.splits)

lemma hasStatus_calls [simp]: "hasStatus (m\<lparr>calls := cs\<rparr>) = hasStatus m"
  by (simp add: hasStatus_def fun_eq_iff)

lemma hasStatus_logs [simp]: "hasStatus (m\<lparr>logs := ls\<rparr>) = hasStatus m"
  by (simp add: hasStatus_def fun_eq_iff)

lemma hasStatus_logMsg [simp]: "hasStatus (logMsg msg m) = hasStatus m"
  by (simp add: logMsg_def)

lemma vms_logMsg [simp]: "vms (logMsg msg m) = vms m"
  by (simp add: logMsg_def)

lemma hasStatus_lookup_store:
  "hasStatus (fst (lookup_store m k nodes now)) k' st \<longleftrightarrow>
     (if k' = k \<and> vms m k = None
      then st = (case nodes of [] \<Rightarrow> statusNotFound | nd # _ \<Rightarrow> nodeStatusToVM (nodeStatus nd))
      else hasStatus m k' st)"
  by (auto simp: hasStatus_def vms_lookup_store split: list.splits)

lemma hasStatus_touchLastSeen [simp]:
  "hasStatus (touchLastSeen m k now) k' st = hasStatus m k' st"
  by (auto simp: hasStatus_def vms_touchLastSeen split: option.splits)

lemma hasStatus_markPaused:
  "hasStatus (markPaused m k) k' st \<longleftrightarrow>
     (if k' = k \<and> vms m k \<noteq> None then st = statusPaused else hasStatus m k' st)"
  by (auto simp: hasStatus_def vms_markPaused split: option.splits)

lemma initiateWake_none:
  "vms m k = None \<Longrightarrow> initiateWake m k = (m, Panics NilDereference)"
  by (simp add: initiateWake_def)

lemma initiateWake_waking:
  "hasStatus m k statusWaking \<Longrightarrow> initiateWake m k = (m, WaitForWake)"
  by (auto simp: initiateWake_def hasStatus_def split: option.splits)

lemma initiateWake_running:
  "hasStatus m k statusRunning \<Longrightarrow> \<exists>a. initiateWake m k = (m, Return (Inr a))"
  by (auto simp: initiateWake_def hasStatus_def split: option.splits)

lemma initiateWake_start:
  assumes "vms m k = Some info" "status info \<noteq> statusWaking" "status info \<noteq> statusRunning"
  shows "initiateWake m k =
     (m\<lparr>vms := (vms m)(k \<mapsto> info\<lparr>status := statusWaking, wakeCh := Some (nextCh m), wakeErr := None\<rparr>),
        nextCh := Suc (nextCh m), logs := logs m @ [''waking VM'']\<rparr>, StartedWake (hostname info))"
  using assms by (simp add: initiateWake_def Let_def)

lemma initiateWake_outcomes:
  "(vms m k = None \<and> initiateWake m k = (m, Panics NilDereference))
   \<or> (hasStatus m k statusWaking \<and> initiateWake m k = (m, WaitForWake))
   \<or> (hasStatus m k statusRunning \<and> (\<exists>a. initiateWake m k = (m, Return (Inr a))))
   \<or> (\<exists>info. vms m k = Some info \<and> status info \<noteq> statusWaking \<and> status info \<noteq> statusRunning
        \<and> initiateWake m k =
     (m\<lparr>vms := (vms m)(k \<mapsto> info\<lparr>status := statusWaking, wakeCh := Some (nextCh m), wakeErr := None\<rparr>),
        nextCh := Suc (nextCh m), logs := logs m @ [''waking VM'']\<rparr>, StartedWake (hostname info)))"
proof (cases "vms m k")
  case None then show ?thesis by (simp add: initiateWake_none)
next
  case (Some info)
  then show ?thesis
    using initiateWake_waking[of m k] initiateWake_running[of m k] initiateWake_start[OF Some]
    by (cases "status info = statusWaking"; cases "status info = statusRunning")
       (simp_all add: hasStatus_def)
qed

lemma pending_append [simp]:
  "pending (ws @ [w]) k = pending ws k + (if wapp w = k \<and> \<not> wdone w then 1 else 0)"
  by (induction ws) simp_all

lemma pending_done:
  "j < length ws \<Longrightarrow> \<not> wdone (ws ! j) \<Longrightarrow>
   pending ws k =
     pending (ws[j := (ws ! j)\<lparr>wdone := True\<rparr>]) k + (if wapp (ws ! j) = k then 1 else 0)"
proof (induction ws arbitrary: j)
  case Nil then show ?case by simp
next
  case (Cons w ws)
  then show ?case by (cases j) auto
qed

lemma pending_pos:
  "j < length ws \<Longrightarrow> \<not> wdone (ws ! j) \<Longrightarrow> 0 < pending ws (wapp (ws ! j))"
proof (induction ws arbitrary: j)
  case Nil then show ?case by simp
next
  case (Cons w ws)
  then show ?case by (cases j) auto
qed

lemma okRequest_grows: "okRequest m r \<Longrightarrow> grows m m' \<Longrightarrow> okRequest m' r"
proof -
  assume a: "okRequest m r" and g: "grows m m'"
  have 1: "holdsInfo (rpc r) \<Longrightarrow> vms m' (rkey r) \<noteq> None"
    using a g by (simp add: okRequest_def grows_def)
  have 2: "rpc r = AtInitiate \<Longrightarrow> \<not> hasStatus m' (rkey r) statusNotFound"
  proof -
    assume i: "rpc r = AtInitiate"
    then have "vms m (rkey r) \<noteq> None" "\<not> hasStatus m (rkey r) statusNotFound"
      using a by (simp_all add: okRequest_def)
    then show ?thesis using g by (simp add: grows_def)
  qed
  show ?thesis using a 1 2 by (simp add: okRequest_def)
qed

lemma frame_refl [simp]: "grows m m" "sameWaking m m" "keepsRunning m m"
  by (simp_all add: grows_def sameWaking_def keepsRunning_def)

lemma frame_calls [simp]:
  "grows m (m\<lparr>calls := cs\<rparr>)" "sameWaking m (m\<lparr>calls := cs\<rparr>)" "keepsRunning m (m\<lparr>calls := cs\<rparr>)"
  by (simp_all add: grows_def sameWaking_def keepsRunning_def)

lemma frame_logMsg [simp]:
  "grows m (logMsg msg m)" "sameWaking m (logMsg msg m)" "keepsRunning m (logMsg msg m)"
  by (simp_all add: grows_def sameWaking_def keepsRunning_def)

lemma frame_touch [simp]:
  "grows m (touchLastSeen m k now)" "sameWaking m (touchLastSeen m k now)"
  "keepsRunning m (touchLastSeen m k now)"
  by (auto simp: grows_def sameWaking_def keepsRunning_def vms_touchLastSeen)

lemma hasStatus_None [simp]: "vms m k = None \<Longrightarrow> \<not> hasStatus m k st"
  by (simp add: hasStatus_def)

lemma hasStatus_Some: "vms m k = Some info \<Longrightarrow> hasStatus m k st = (status info = st)"
  by (simp add: hasStatus_def)

lemma frame_lookup_store [simp]:
  "grows m (fst (lookup_store m k nodes now))"
  "sameWaking m (fst (lookup_store m k nodes now))"
  "keepsRunning m (fst (lookup_store m k nodes now))"
proof -
  show "grows m (fst (lookup_store m k nodes now))"
    by (simp add: grows_def vms_lookup_store hasStatus_lookup_store)
  have "(case nodes of [] \<Rightarrow> statusNotFound | nd # _ \<Rightarrow> nodeStatusToVM (nodeStatus nd)) \<noteq> statusWaking"
    by (simp add: validStatus_node split: list.splits)
  then show "sameWaking m (fst (lookup_store m k nodes now))"
    by (simp add: sameWaking_def hasStatus_lookup_store)
  show "keepsRunning m (fst (lookup_store m k nodes now))"
    by (auto simp: keepsRunning_def hasStatus_lookup_store)
qed

lemma mgr_setpc [simp]: "mgr (setpc s i p) = mgr s" "wakes (setpc s i p) = wakes s"
  "watcher (setpc s i p) = watcher s" "crashed (setpc s i p) = crashed s"
  "idleTimeout (setpc s i p) = idleTimeout s" "wakeTimeout (setpc s i p) = wakeTimeout s"
  "requests (setpc s i p) = (requests s)[i := (requests s ! i)\<lparr>rpc := p\<rparr>]"
  by (simp_all add: setpc_def)

lemma inv_update:
  assumes I: "sysInv s" and M: "okManager m'" and G: "grows (mgr s) m'"
    and SW: "sameWaking (mgr s) m'" and KR: "keepsRunning (mgr s) m'"
    and R: "okRequest m' ((requests s ! i)\<lparr>rpc := p\<rparr>)"
  shows "sysInv (setpc (s\<lparr>mgr := m'\<rparr>) i p)"
proof -
  have P: "\<forall>k. pending (wakes s) k = (if hasStatus m' k statusWaking then 1 else 0)"
    using I SW by (simp add: sysInv_def sameWaking_def)
  have Rq: "\<forall>r \<in> set ((requests s)[i := (requests s ! i)\<lparr>rpc := p\<rparr>]). okRequest m' r"
  proof
    fix r assume "r \<in> set ((requests s)[i := (requests s ! i)\<lparr>rpc := p\<rparr>])"
    then have "r = (requests s ! i)\<lparr>rpc := p\<rparr> \<or> r \<in> set (requests s)"
      using set_update_subset_insert[of "requests s" i] by auto
    then show "okRequest m' r" using R I G by (auto simp: sysInv_def intro: okRequest_grows)
  qed
  have W: "\<forall>k \<in> set (wkeys (watcher s)). hasStatus m' k statusRunning"
    using I KR by (simp add: sysInv_def keepsRunning_def)
  show ?thesis using M P Rq W I by (simp add: sysInv_def)
qed

lemma inv_setpc:
  assumes I: "sysInv s" and R: "okRequest (mgr s) ((requests s ! i)\<lparr>rpc := p\<rparr>)"
  shows "sysInv (setpc s i p)"
proof -
  have "sysInv (setpc (s\<lparr>mgr := mgr s\<rparr>) i p)"
    using I R by (intro inv_update) (simp_all add: sysInv_def)
  then show ?thesis by simp
qed

lemma inv_watcher:
  assumes I: "sysInv s" and M: "okManager m'" and G: "grows (mgr s) m'"
    and SW: "sameWaking (mgr s) m'"
    and D: "distinct (wkeys w')" and W: "\<forall>k \<in> set (wkeys w'). hasStatus m' k statusRunning"
  shows "sysInv (s\<lparr>mgr := m', watcher := w'\<rparr>)"
  using assms by (auto simp: sysInv_def sameWaking_def intro: okRequest_grows)

lemma inv_provision: "sysInv (provision a b)"
  by (simp add: sysInv_def provision_def okManager_new hasStatus_def) (simp add: newVMStateManager_def)

lemma inv_request:
  assumes "sysInv s"
  shows "sysInv (s\<lparr>requests := requests s @ [\<lparr>rkey = k, rpc = AtLookup\<rparr>]\<rparr>)"
  using assms by (auto simp: sysInv_def okRequest_def)

lemma invD_req: "sysInv s \<Longrightarrow> i < length (requests s) \<Longrightarrow> okRequest (mgr s) (requests s ! i)"
  by (simp add: sysInv_def)

lemma invD_mgr: "sysInv s \<Longrightarrow> okManager (mgr s)"
  by (simp add: sysInv_def)

lemma okRequest_pc:
  "okRequest m (r\<lparr>rpc := p\<rparr>) \<longleftrightarrow>
     (holdsInfo p \<longrightarrow> vms m (rkey r) \<noteq> None) \<and>
     (p = AtInitiate \<longrightarrow> \<not> hasStatus m (rkey r) statusNotFound) \<and>
     (\<forall>k. p \<noteq> Returned (Inl (UnexpectedStatus k))) \<and> (\<forall>q. p \<noteq> Panicked q)"
  by (simp add: okRequest_def)

lemma step_AtLookup:
  assumes I: "sysInv s" and i: "i < length (requests s)" and pc: "rpc (requests s ! i) = AtLookup"
  shows "sysInv (stepRequest s i now)"
proof (cases "vms (mgr s) (rkey (requests s ! i))")
  case None
  have "sysInv (setpc (s\<lparr>mgr := (mgr s)\<lparr>calls := calls (mgr s) @ [GetHostGroupNodes (rkey (requests s ! i))]\<rparr>\<rparr>) i AtDescribe)"
    using I by (intro inv_update) (simp_all add: okRequest_pc invD_mgr)
  then show ?thesis using pc None by (simp add: stepRequest_def Let_def)
next
  case (Some info)
  have "sysInv (setpc s i AtSwitch)"
    using I Some by (intro inv_setpc) (simp_all add: okRequest_pc)
  then show ?thesis using pc Some by (simp add: stepRequest_def Let_def)
qed

lemma step_AtStore:
  assumes I: "sysInv s" and i: "i < length (requests s)" and pc: "rpc (requests s ! i) = AtStore nodes"
  shows "sysInv (stepRequest s i now)"
proof -
  have "sysInv (setpc (s\<lparr>mgr := fst (lookup_store (mgr s) (rkey (requests s ! i)) nodes now)\<rparr>) i AtSwitch)"
    using I by (intro inv_update) (simp_all add: okRequest_pc invD_mgr okManager_lookup_store vms_lookup_store)
  then show ?thesis using pc by (simp add: stepRequest_def Let_def)
qed

lemma validStatus_cases:
  "validStatus st \<Longrightarrow> st \<noteq> statusNotFound \<Longrightarrow> st \<noteq> statusRunning \<Longrightarrow> st \<noteq> statusWaking \<Longrightarrow>
   st = statusPaused \<or> st = statusUnknown"
  by (auto simp: validStatus_def)

lemma step_AtSwitch:
  assumes I: "sysInv s" and i: "i < length (requests s)" and pc: "rpc (requests s ! i) = AtSwitch"
  shows "sysInv (stepRequest s i now)"
proof -
  let ?k = "rkey (requests s ! i)"
  have "vms (mgr s) ?k \<noteq> None" using invD_req[OF I i] pc by (simp add: okRequest_def)
  then obtain info where info: "vms (mgr s) ?k = Some info" by auto
  have v: "validStatus (status info)"
    using okManagerD2[OF invD_mgr[OF I] info] by (simp add: okRecord_def)
  have a: "\<And>p. holdsInfo p \<Longrightarrow> p \<noteq> AtInitiate \<Longrightarrow> sysInv (setpc s i p)"
    by (rule inv_setpc[OF I]) (auto simp: okRequest_pc info)
  have b: "\<And>x. (\<forall>k. x \<noteq> Inl (UnexpectedStatus k)) \<Longrightarrow> sysInv (setpc s i (Returned x))"
    by (rule inv_setpc[OF I]) (auto simp: okRequest_pc info)
  have c: "status info \<noteq> statusNotFound \<Longrightarrow> sysInv (setpc s i AtInitiate)"
    by (rule inv_setpc[OF I]) (auto simp: okRequest_pc info hasStatus_Some)
  show ?thesis
    using pc info a[of AtWait] b[of "Inl (AppNotFound ?k)"] b[of "Inr (ip info)"] c
      validStatus_cases[OF v]
    by (auto simp: stepRequest_def Let_def)
qed

lemma step_AtWait:
  assumes I: "sysInv s" and i: "i < length (requests s)" and pc: "rpc (requests s ! i) = AtWait"
  shows "sysInv (stepRequest s i now)"
proof -
  let ?k = "rkey (requests s ! i)"
  have "vms (mgr s) ?k \<noteq> None" using invD_req[OF I i] pc by (simp add: okRequest_def)
  then obtain info where info: "vms (mgr s) ?k = Some info" by auto
  have "sysInv (setpc s i (AtSelect (wakeCh info)))"
    by (rule inv_setpc[OF I]) (auto simp: okRequest_pc info)
  then show ?thesis using pc info by (simp add: stepRequest_def Let_def)
qed

lemma step_AtWakeFired:
  assumes I: "sysInv s" and i: "i < length (requests s)" and pc: "rpc (requests s ! i) = AtWakeFired"
  shows "sysInv (stepRequest s i now)"
proof -
  let ?k = "rkey (requests s ! i)"
  have "vms (mgr s) ?k \<noteq> None" using invD_req[OF I i] pc by (simp add: okRequest_def)
  then obtain info where info: "vms (mgr s) ?k = Some info" by auto
  have "sysInv (setpc s i (Returned (waitForWake info ?k (wakeTimeout s) WakeChClosed)))"
    by (rule inv_setpc[OF I]) (auto simp: okRequest_pc info waitForWake_def split: option.splits)
  then show ?thesis using pc info by (simp add: stepRequest_def Let_def)
qed

lemma step_Returned:
  assumes I: "sysInv s" and i: "i < length (requests s)" and pc: "rpc (requests s ! i) = Returned x"
  shows "sysInv (stepRequest s i now)"
proof (cases x)
  case (Inl e)
  then show ?thesis using I pc by (simp add: stepRequest_def Let_def)
next
  case (Inr a)
  have "sysInv (setpc (s\<lparr>mgr := touchLastSeen (mgr s) (rkey (requests s ! i)) now\<rparr>) i Served)"
    using I by (intro inv_update) (simp_all add: okRequest_pc invD_mgr okManager_touchLastSeen)
  then show ?thesis using pc Inr by (simp add: stepRequest_def Let_def)
qed

lemma hasStatus_update:
  "hasStatus (m\<lparr>vms := (vms m)(k \<mapsto> info)\<rparr>) k' st =
     (if k' = k then status info = st else hasStatus m k' st)"
  by (simp add: hasStatus_def)

lemma hasStatus_nextCh [simp]: "hasStatus (m\<lparr>nextCh := n\<rparr>) = hasStatus m"
  by (simp add: hasStatus_def fun_eq_iff)

lemma hasStatus_closed [simp]: "hasStatus (m\<lparr>closed := n\<rparr>) = hasStatus m"
  by (simp add: hasStatus_def fun_eq_iff)

lemma hasStatus_update2:
  "hasStatus (m\<lparr>vms := (vms m)(k \<mapsto> info), nextCh := n, logs := l\<rparr>) k' st =
     (if k' = k then status info = st else hasStatus m k' st)"
  by (simp add: hasStatus_def)

lemma step_AtInitiate:
  assumes I: "sysInv s" and i: "i < length (requests s)" and pc: "rpc (requests s ! i) = AtInitiate"
  shows "sysInv (stepRequest s i now)"
proof -
  let ?k = "rkey (requests s ! i)"
  let ?m = "mgr s"
  have ex: "vms ?m ?k \<noteq> None" and nf: "\<not> hasStatus ?m ?k statusNotFound"
    using invD_req[OF I i] pc by (simp_all add: okRequest_def)
  have M: "okManager ?m" using I by (rule invD_mgr)
  consider (waking) "hasStatus ?m ?k statusWaking" "initiateWake ?m ?k = (?m, WaitForWake)"
    | (running) a where "hasStatus ?m ?k statusRunning" "initiateWake ?m ?k = (?m, Return (Inr a))"
    | (start) info where "vms ?m ?k = Some info" "status info \<noteq> statusWaking"
        "status info \<noteq> statusRunning"
        "initiateWake ?m ?k =
          (?m\<lparr>vms := (vms ?m)(?k \<mapsto> info\<lparr>status := statusWaking, wakeCh := Some (nextCh ?m), wakeErr := None\<rparr>),
              nextCh := Suc (nextCh ?m), logs := logs ?m @ [''waking VM'']\<rparr>, StartedWake (hostname info))"
    using initiateWake_outcomes[of ?m ?k] ex by blast
  then show ?thesis
  proof cases
    case waking
    have "sysInv (setpc (s\<lparr>mgr := ?m\<rparr>) i AtWait)"
      using I M ex by (intro inv_update) (simp_all add: okRequest_pc)
    then show ?thesis using pc waking by (simp add: stepRequest_def Let_def)
  next
    case running
    have "sysInv (setpc (s\<lparr>mgr := ?m\<rparr>) i (Returned (Inr a)))"
      using I M ex by (intro inv_update) (simp_all add: okRequest_pc)
    then show ?thesis using pc running by (simp add: stepRequest_def Let_def)
  next
    case start
    define info' where "info' = info\<lparr>status := statusWaking, wakeCh := Some (nextCh ?m), wakeErr := None\<rparr>"
    define m' where "m' = ?m\<lparr>vms := (vms ?m)(?k \<mapsto> info'), nextCh := Suc (nextCh ?m),
                            logs := logs ?m @ [''waking VM'']\<rparr>"
    define w where "w = \<lparr>wapp = ?k, whost = hostname info, wdone = False\<rparr>"
    have iw: "initiateWake ?m ?k = (m', StartedWake (hostname info))"
      using start(4) by (simp add: m'_def info'_def)
    have eq: "stepRequest s i now = setpc (s\<lparr>mgr := m', wakes := wakes s @ [w]\<rparr>) i AtWait"
      using pc iw by (simp add: stepRequest_def Let_def w_def)
    have hs: "\<And>k' st. hasStatus m' k' st = (if k' = ?k then st = statusWaking else hasStatus ?m k' st)"
      by (auto simp: m'_def info'_def hasStatus_update)
    have ex': "\<And>k'. vms ?m k' \<noteq> None \<Longrightarrow> vms m' k' \<noteq> None" by (simp add: m'_def)
    have M': "okManager m'" using okManager_initiateWake[OF M, of ?k] iw by simp
    have nw: "\<not> hasStatus ?m ?k statusWaking" using start by (simp add: hasStatus_Some)
    have nr: "\<not> hasStatus ?m ?k statusRunning" using start by (simp add: hasStatus_Some)
    have P: "\<forall>k'. pending (wakes s @ [w]) k' = (if hasStatus m' k' statusWaking then 1 else 0)"
      using I nw by (simp add: sysInv_def hs w_def)
    have G: "grows ?m m'" using nf by (auto simp: grows_def hs ex')
    have R: "\<forall>r \<in> set ((requests s)[i := (requests s ! i)\<lparr>rpc := AtWait\<rparr>]). okRequest m' r"
    proof
      fix r assume "r \<in> set ((requests s)[i := (requests s ! i)\<lparr>rpc := AtWait\<rparr>])"
      then have "r = (requests s ! i)\<lparr>rpc := AtWait\<rparr> \<or> r \<in> set (requests s)"
        using set_update_subset_insert[of "requests s" i] by auto
      moreover have "okRequest m' ((requests s ! i)\<lparr>rpc := AtWait\<rparr>)"
        using ex' ex by (simp add: okRequest_pc)
      ultimately show "okRequest m' r" using I G by (auto simp: sysInv_def intro: okRequest_grows)
    qed
    have W: "\<forall>k' \<in> set (wkeys (watcher s)). hasStatus m' k' statusRunning"
      using I nr by (auto simp: sysInv_def hs)
    have "sysInv (setpc (s\<lparr>mgr := m', wakes := wakes s @ [w]\<rparr>) i AtWait)"
      using M' P R W I by (simp add: sysInv_def)
    then show ?thesis by (simp add: eq)
  qed
qed

lemma inv_stepRequest:
  assumes I: "sysInv s" and i: "i < length (requests s)"
  shows "sysInv (stepRequest s i now)"
proof (cases "rpc (requests s ! i)")
  case AtLookup then show ?thesis using I i by (rule step_AtLookup[rotated 2])
next
  case AtDescribe then show ?thesis using I by (simp add: stepRequest_def Let_def)
next
  case (AtStore nodes) then show ?thesis using I i by (rule step_AtStore[rotated 2])
next
  case AtSwitch then show ?thesis using I i by (rule step_AtSwitch[rotated 2])
next
  case AtInitiate then show ?thesis using I i by (rule step_AtInitiate[rotated 2])
next
  case AtWait then show ?thesis using I i by (rule step_AtWait[rotated 2])
next
  case (AtSelect ch) then show ?thesis using I by (simp add: stepRequest_def Let_def)
next
  case AtWakeFired then show ?thesis using I i by (rule step_AtWakeFired[rotated 2])
next
  case (Returned x) then show ?thesis using I i by (rule step_Returned[rotated 2])
next
  case Served then show ?thesis using I by (simp add: stepRequest_def Let_def)
next
  case (Panicked p) then show ?thesis using I by (simp add: stepRequest_def Let_def)
qed

lemma inv_describeReturns:
  assumes I: "sysInv s" and i: "i < length (requests s)"
  shows "sysInv (describeReturns s i res)"
proof (cases "rpc (requests s ! i) = AtDescribe")
  case False
  then show ?thesis using I by (cases "rpc (requests s ! i)") (simp_all add: describeReturns_def)
next
  case True
  have a: "\<And>p. \<not> holdsInfo p \<Longrightarrow> (\<forall>k. p \<noteq> Returned (Inl (UnexpectedStatus k))) \<Longrightarrow>
            (\<forall>q. p \<noteq> Panicked q) \<Longrightarrow> sysInv (setpc s i p)"
    by (rule inv_setpc[OF I]) (auto simp: okRequest_pc)
  show ?thesis using True a by (cases res) (simp_all add: describeReturns_def)
qed

lemma inv_selectFires:
  assumes I: "sysInv s" and i: "i < length (requests s)"
  shows "sysInv (selectFires s i sc)"
proof (cases "rpc (requests s ! i)")
  case (AtSelect ch)
  have ex: "vms (mgr s) (rkey (requests s ! i)) \<noteq> None"
    using invD_req[OF I i] AtSelect by (simp add: okRequest_def)
  have a: "\<And>p. p \<noteq> AtInitiate \<Longrightarrow> (\<forall>k. p \<noteq> Returned (Inl (UnexpectedStatus k))) \<Longrightarrow>
            (\<forall>q. p \<noteq> Panicked q) \<Longrightarrow> sysInv (setpc s i p)"
    by (rule inv_setpc[OF I]) (auto simp: okRequest_pc ex)
  show ?thesis using AtSelect a I
    by (cases sc; cases ch) (simp_all add: selectFires_def)
qed (use I in \<open>simp_all add: selectFires_def\<close>)

lemma hasStatus_fun: "hasStatus m k a \<Longrightarrow> hasStatus m k b \<Longrightarrow> a = b"
  by (auto simp: hasStatus_def split: option.splits)

lemma hasStatus_ex: "hasStatus m k st \<Longrightarrow> \<exists>info. vms m k = Some info \<and> status info = st"
  by (auto simp: hasStatus_def split: option.splits)

lemma frame_markPaused:
  assumes "hasStatus m k statusRunning"
  shows "grows m (markPaused m k)" "sameWaking m (markPaused m k)"
proof -
  obtain info where info: "vms m k = Some info" "status info = statusRunning"
    using hasStatus_ex[OF assms] by blast
  show "grows m (markPaused m k)"
    using info by (auto simp: grows_def hasStatus_markPaused vms_markPaused hasStatus_Some)
  show "sameWaking m (markPaused m k)"
    using info by (auto simp: sameWaking_def hasStatus_markPaused hasStatus_Some)
qed

lemma inv_tick:
  assumes I: "sysInv s" shows "sysInv (tick s now order)"
proof (cases "watcher s = WSelect \<and> distinct order \<and> set order = dom (vms (mgr s))")
  case False then show ?thesis using I by (auto simp: tick_def)
next
  case True
  have "sysInv (s\<lparr>mgr := mgr s, watcher := WLoop (idleApps (mgr s) (idleTimeout s) now order)\<rparr>)"
    using I True
    by (intro inv_watcher) (auto simp: invD_mgr idleApps_def hasStatus_def split: option.splits)
  then show ?thesis using True by (simp add: tick_def)
qed

lemma inv_watcherStep:
  assumes I: "sysInv s" shows "sysInv (watcherStep s)"
proof (cases "watcher s")
  case (WLoop ks)
  note W = this
  show ?thesis
  proof (cases ks)
    case Nil
    have "sysInv (s\<lparr>mgr := mgr s, watcher := WSelect\<rparr>)"
      using I by (intro inv_watcher) (simp_all add: invD_mgr)
    then show ?thesis using W Nil by (simp add: watcherStep_def)
  next
    case (Cons k rest)
    have d: "distinct (k # rest)" and r: "\<forall>k' \<in> set (k # rest). hasStatus (mgr s) k' statusRunning"
      using I W Cons by (simp_all add: sysInv_def)
    have a: "sysInv (s\<lparr>mgr := mgr s, watcher := WLoop rest\<rparr>)"
      using I d r by (intro inv_watcher) (simp_all add: invD_mgr)
    have b: "sysInv (s\<lparr>mgr := logMsg ''pausing idle VM'' (mgr s),
                    watcher := WPauseVM k (getHostname (mgr s) k) rest\<rparr>)"
      using I d r by (intro inv_watcher) (simp_all add: invD_mgr)
    show ?thesis using W Cons a b by (simp add: watcherStep_def Let_def)
  qed
next
  case (WMarkPaused k ks)
  have d: "distinct (k # ks)" and r: "\<forall>k' \<in> set (k # ks). hasStatus (mgr s) k' statusRunning"
    using I WMarkPaused by (simp_all add: sysInv_def)
  have run: "hasStatus (mgr s) k statusRunning" using r by simp
  have nw: "\<not> hasStatus (mgr s) k statusWaking"
    using hasStatus_fun[OF run, of statusWaking] by auto
  have "sysInv (s\<lparr>mgr := logMsg ''VM paused successfully'' (markPaused (mgr s) k),
                watcher := WLoop ks\<rparr>)"
  proof (rule inv_watcher[OF I])
    show "okManager (logMsg ''VM paused successfully'' (markPaused (mgr s) k))"
      using okManager_markPaused[OF invD_mgr[OF I] nw] by simp
    show "grows (mgr s) (logMsg ''VM paused successfully'' (markPaused (mgr s) k))"
      using frame_markPaused(1)[OF run] by (simp add: grows_def)
    show "sameWaking (mgr s) (logMsg ''VM paused successfully'' (markPaused (mgr s) k))"
      using frame_markPaused(2)[OF run] by (simp add: sameWaking_def)
    show "distinct (wkeys (WLoop ks))" using d by simp
    show "\<forall>k' \<in> set (wkeys (WLoop ks)).
            hasStatus (logMsg ''VM paused successfully'' (markPaused (mgr s) k)) k' statusRunning"
      using d r by (auto simp: hasStatus_markPaused)
  qed
  then show ?thesis using WMarkPaused by (simp add: watcherStep_def)
qed (use I in \<open>simp_all add: watcherStep_def\<close>)

lemma inv_pauseReturns:
  assumes I: "sysInv s" shows "sysInv (pauseReturns s r)"
proof (cases "watcher s")
  case (WPauseVM k h ks)
  have d: "distinct (k # ks)" and rn: "\<forall>k' \<in> set (k # ks). hasStatus (mgr s) k' statusRunning"
    using I WPauseVM by (simp_all add: sysInv_def)
  let ?m = "(mgr s)\<lparr>calls := calls (mgr s) @ [PauseVM h]\<rparr>"
  have a: "\<And>w' msg. distinct (wkeys w') \<Longrightarrow> set (wkeys w') \<subseteq> set (k # ks) \<Longrightarrow>
             sysInv (s\<lparr>mgr := ?m, watcher := w'\<rparr>) \<and> sysInv (s\<lparr>mgr := logMsg msg ?m, watcher := w'\<rparr>)"
  proof
    fix w' :: wstate and msg :: string
    assume dw: "distinct (wkeys w')" and sub: "set (wkeys w') \<subseteq> set (k # ks)"
    show "sysInv (s\<lparr>mgr := ?m, watcher := w'\<rparr>)"
      using I dw sub rn by (intro inv_watcher) (auto simp: invD_mgr)
    show "sysInv (s\<lparr>mgr := logMsg msg ?m, watcher := w'\<rparr>)"
      using I dw sub rn by (intro inv_watcher) (auto simp: invD_mgr grows_def sameWaking_def)
  qed
  show ?thesis
    using WPauseVM d a[of "WMarkPaused k ks"] a[of "WLoop ks"] a[of WRecovered]
    by (cases r) (auto simp: pauseReturns_def Let_def)
qed (use I in \<open>simp_all add: pauseReturns_def\<close>)

lemma inv_stopWatcher:
  assumes I: "sysInv s" shows "sysInv (stopWatcher s)"
proof (cases "watcher s = WSelect")
  case False then show ?thesis using I by (simp add: stopWatcher_def)
next
  case True
  have "sysInv (s\<lparr>mgr := logMsg ''idle watcher stopped'' (mgr s), watcher := WStopped\<rparr>)"
    using I by (intro inv_watcher) (simp_all add: invD_mgr)
  then show ?thesis using True by (simp add: stopWatcher_def)
qed

lemma okManager_doWake:
  "okManager m \<Longrightarrow> doWake m k h err = Inr m' \<Longrightarrow> okManager m'"
  unfolding doWake_def using okManager_finishWake[of "m\<lparr>calls := calls m @ [ResumeVM h]\<rparr>" k err m']
  by simp

lemma doWake_waking:
  assumes M: "okManager m" and w: "hasStatus m k statusWaking"
  shows "\<exists>m'. doWake m k h err = Inr m' \<and>
           (\<forall>k' st. hasStatus m' k' st =
              (if k' = k then st = (if err = None then statusRunning else statusPaused)
               else hasStatus m k' st)) \<and>
           (\<forall>k'. vms m k' \<noteq> None \<longrightarrow> vms m' k' \<noteq> None)"
proof -
  obtain info where info: "vms m k = Some info" "status info = statusWaking"
    using hasStatus_ex[OF w] by blast
  have r: "okRecord (closed m) (nextCh m) info" using okManagerD2[OF M info(1)] .
  then obtain c where c: "wakeCh info = Some c" "c \<notin> closed m"
    using info(2) by (auto simp: okRecord_def)
  let ?m0 = "m\<lparr>calls := calls m @ [ResumeVM h]\<rparr>"
  have v0: "vms ?m0 k = Some info" using info by simp
  show ?thesis
    unfolding doWake_def finishWake_cases[OF v0]
    using c by (auto simp: Let_def hasStatus_def)
qed

lemma inv_resumeReturns:
  assumes I: "sysInv s" and j: "j < length (wakes s)"
  shows "sysInv (resumeReturns s j err) \<and> grows (mgr s) (mgr (resumeReturns s j err))"
proof (cases "wdone (wakes s ! j)")
  case True then show ?thesis using I by (simp add: resumeReturns_def Let_def)
next
  case False
  let ?w = "wakes s ! j"
  let ?k = "wapp ?w"
  let ?m = "mgr s"
  have M: "okManager ?m" using I by (rule invD_mgr)
  have P: "\<And>k. pending (wakes s) k = (if hasStatus ?m k statusWaking then 1 else 0)"
    using I by (simp add: sysInv_def)
  have wk: "hasStatus ?m ?k statusWaking"
    using pending_pos[OF j False] P[of ?k] by (auto split: if_splits)
  obtain m' where dw: "doWake ?m ?k (whost ?w) err = Inr m'"
    and hs: "\<And>k' st. hasStatus m' k' st =
              (if k' = ?k then st = (if err = None then statusRunning else statusPaused)
               else hasStatus ?m k' st)"
    and ex: "\<And>k'. vms ?m k' \<noteq> None \<Longrightarrow> vms m' k' \<noteq> None"
    using doWake_waking[OF M wk, of "whost ?w" err] by blast
  have eq: "resumeReturns s j err = s\<lparr>mgr := m', wakes := (wakes s)[j := ?w\<lparr>wdone := True\<rparr>]\<rparr>"
    using False dw by (simp add: resumeReturns_def Let_def)
  have M': "okManager m'" using okManager_doWake[OF M dw] .
  have nnf: "\<not> hasStatus ?m ?k statusNotFound" using hasStatus_fun[OF wk, of statusNotFound] by auto
  have nr: "\<not> hasStatus ?m ?k statusRunning" using hasStatus_fun[OF wk, of statusRunning] by auto
  have G: "grows ?m m'" using nnf by (auto simp: grows_def hs ex)
  have P': "\<forall>k. pending ((wakes s)[j := ?w\<lparr>wdone := True\<rparr>]) k
               = (if hasStatus m' k statusWaking then 1 else 0)"
  proof
    fix k
    show "pending ((wakes s)[j := ?w\<lparr>wdone := True\<rparr>]) k = (if hasStatus m' k statusWaking then 1 else 0)"
      using pending_done[OF j False, of k] P[of k] wk by (auto simp: hs split: if_splits)
  qed
  have R: "\<forall>r \<in> set (requests s). okRequest m' r"
    using I G by (auto simp: sysInv_def intro: okRequest_grows)
  have W: "\<forall>k \<in> set (wkeys (watcher s)). hasStatus m' k statusRunning"
    using I nr by (auto simp: sysInv_def hs)
  have "sysInv (s\<lparr>mgr := m', wakes := (wakes s)[j := ?w\<lparr>wdone := True\<rparr>]\<rparr>)"
    using M' P' R W I by (simp add: sysInv_def)
  then show ?thesis using G by (simp add: eq)
qed

lemma inv_step: "sysInv s \<Longrightarrow> sysInv (step e s)"
  by (cases e)
     (simp_all add: step_def inv_request inv_stepRequest inv_describeReturns inv_selectFires
        inv_resumeReturns inv_tick inv_watcherStep inv_pauseReturns inv_stopWatcher)

lemma reachable_inv: "reachable s \<Longrightarrow> sysInv s"
  by (induction rule: reachable.induct) (simp_all add: inv_provision inv_step)

lemma grows_initiateWake:
  assumes "\<not> hasStatus m k statusNotFound"
  shows "grows m (fst (initiateWake m k))"
proof -
  consider "initiateWake m k = (m, Panics NilDereference)"
    | "initiateWake m k = (m, WaitForWake)"
    | a where "initiateWake m k = (m, Return (Inr a))"
    | info where "vms m k = Some info"
        "initiateWake m k =
     (m\<lparr>vms := (vms m)(k \<mapsto> info\<lparr>status := statusWaking, wakeCh := Some (nextCh m), wakeErr := None\<rparr>),
        nextCh := Suc (nextCh m), logs := logs m @ [''waking VM'']\<rparr>, StartedWake (hostname info))"
    using initiateWake_outcomes[of m k] by blast
  then show ?thesis
  proof cases
    case 4
    then show ?thesis using assms by (auto simp: grows_def hasStatus_update)
  qed simp_all
qed

lemma mgr_stepRequest:
  "mgr (stepRequest s i now) =
     (let k = rkey (requests s ! i); m = mgr s in
      case rpc (requests s ! i) of
        AtLookup \<Rightarrow> (case vms m k of Some info \<Rightarrow> m
                      | None \<Rightarrow> m\<lparr>calls := calls m @ [GetHostGroupNodes k]\<rparr>)
      | AtStore nodes \<Rightarrow> fst (lookup_store m k nodes now)
      | AtInitiate \<Rightarrow> fst (initiateWake m k)
      | Returned x \<Rightarrow> (case x of Inr a \<Rightarrow> touchLastSeen m k now | Inl e \<Rightarrow> m)
      | _ \<Rightarrow> m)"
  by (simp add: stepRequest_def Let_def split: pc.splits option.splits sum.splits prod.splits outcome.splits)

lemma grows_stepRequest:
  assumes I: "sysInv s" and i: "i < length (requests s)"
  shows "grows (mgr s) (mgr (stepRequest s i now))"
proof (cases "rpc (requests s ! i) = AtInitiate")
  case True
  then have "\<not> hasStatus (mgr s) (rkey (requests s ! i)) statusNotFound"
    using invD_req[OF I i] by (simp add: okRequest_def)
  then show ?thesis using True by (simp add: mgr_stepRequest grows_initiateWake)
next
  case False
  then show ?thesis
    by (simp add: mgr_stepRequest Let_def split: pc.splits option.splits sum.splits)
qed

lemma grows_step:
  assumes I: "sysInv s" shows "grows (mgr s) (mgr (step e s))"
proof (cases e)
  case (Step i now) then show ?thesis using grows_stepRequest[OF I] by (simp add: step_def)
next
  case (DescribeReturns i res)
  then show ?thesis
    by (simp add: step_def describeReturns_def Let_def split: pc.splits sum.splits)
next
  case (SelectFires i sc)
  then show ?thesis
    by (simp add: step_def selectFires_def Let_def split: pc.splits select_case.splits option.splits)
next
  case (ResumeReturns j err) then show ?thesis using inv_resumeReturns[OF I] by (simp add: step_def)
next
  case (Tick now order) then show ?thesis by (simp add: step_def tick_def)
next
  case WatcherStep
  show ?thesis
  proof (cases "watcher s")
    case (WMarkPaused k ks)
    have "hasStatus (mgr s) k statusRunning" using I WMarkPaused by (simp add: sysInv_def)
    then show ?thesis using WatcherStep WMarkPaused frame_markPaused(1)[of "mgr s" k]
      by (simp add: step_def watcherStep_def grows_def)
  next
    case (WLoop ks)
    then show ?thesis using WatcherStep
      by (cases ks) (simp_all add: step_def watcherStep_def Let_def)
  qed (use WatcherStep in \<open>simp_all add: step_def watcherStep_def\<close>)
next
  case (PauseReturns r)
  then show ?thesis
    by (simp add: step_def pauseReturns_def Let_def grows_def split: wstate.splits pause_result.splits)
next
  case Stop then show ?thesis by (simp add: step_def stopWatcher_def)
qed (simp_all add: step_def)

lemmas step_simps = step_def stepRequest_def describeReturns_def selectFires_def resumeReturns_def
  tick_def watcherStep_def pauseReturns_def stopWatcher_def setpc_def provision_def
  newVMStateManager_def lookup_store_def initiateWake_def doWake_def finishWake_def
  touchLastSeen_def markPaused_def getHostname_def idleApps_def logMsg_def waitForWake_def
  Let_def

lemma ghost_state:
  "run [Request ''ghost'', Step 0 0, DescribeReturns 0 (Inr []), Step 0 1] (provision 30 30) =
   \<lparr>mgr = \<lparr>vms = [''ghost'' \<mapsto> \<lparr>hostname = [], ip = [], status = statusNotFound,
                     lastSeen = zeroTime, wakeCh = None, wakeErr = None\<rparr>],
            closed = {}, nextCh = 0, calls = [GetHostGroupNodes ''ghost''],
            logs = [''idle watcher started'']\<rparr>,
     requests = [\<lparr>rkey = ''ghost'', rpc = AtSwitch\<rparr>], wakes = [], watcher = WSelect,
     idleTimeout = 30, wakeTimeout = 30, crashed = False\<rparr>"
  by (simp add: step_simps)

lemma reachable_run: "reachable s \<Longrightarrow> reachable (run es s)"
  by (induction es arbitrary: s) (simp_all add: reachable.stepped)

lemma ensureRunning_no_unexpected:
  assumes v: "\<And>k info. vms m k = Some info \<Longrightarrow> validStatus (status info)"
  shows "snd (ensureRunning m k res now) \<noteq> Return (Inl (UnexpectedStatus k'))"
proof -
  have iw: "\<And>m1. snd (initiateWake m1 k) \<noteq> Return (Inl (UnexpectedStatus k'))"
  proof -
    fix m1
    show "snd (initiateWake m1 k) \<noteq> Return (Inl (UnexpectedStatus k'))"
      using initiateWake_outcomes[of m1 k] by (elim disjE conjE exE) simp_all
  qed
  have sw: "\<And>m1 info. validStatus (status info) \<Longrightarrow>
      snd (if status info = statusNotFound then (m1, Return (Inl (AppNotFound k)))
          else if status info = statusRunning then (m1, Return (Inr (ip info)))
          else if status info = statusWaking then (m1, WaitForWake)
          else if status info = statusPaused \<or> status info = statusUnknown
            then initiateWake m1 k
          else (m1, Return (Inl (UnexpectedStatus k)))) \<noteq> Return (Inl (UnexpectedStatus k'))"
    using iw by (auto simp: validStatus_def)
  show ?thesis
  proof (cases "vms m k")
    case (Some info)
    then show ?thesis using sw[OF v[OF Some]] by (simp add: ensureRunning_def lookup_def)
  next
    case None
    show ?thesis
    proof (cases res)
      case (Inl e)
      then show ?thesis using None by (simp add: ensureRunning_def lookup_def Let_def)
    next
      case (Inr nodes)
      let ?m1 = "m\<lparr>calls := calls m @ [GetHostGroupNodes k]\<rparr>"
      obtain m2 info where ls: "lookup_store ?m1 k nodes now = (m2, info)" by (cases "lookup_store ?m1 k nodes now")
      have "validStatus (status info)"
        using ls None by (auto simp: lookup_store_def Let_def validStatus_node split: list.splits)
      then show ?thesis using sw[of info m2] None Inr ls
        by (simp add: ensureRunning_def lookup_def Let_def)
    qed
  qed
qed

section \<open>What a step does to the manager and to a record\<close>

lemma watcher_stepRequest [simp]: "watcher (stepRequest s i now) = watcher s"
  by (simp add: stepRequest_def Let_def
      split: pc.splits option.splits sum.splits prod.splits outcome.splits)

lemma watcher_describeReturns [simp]: "watcher (describeReturns s i res) = watcher s"
  by (simp add: describeReturns_def Let_def split: pc.splits sum.splits)

lemma watcher_selectFires [simp]: "watcher (selectFires s i sc) = watcher s"
  by (simp add: selectFires_def Let_def split: pc.splits select_case.splits option.splits)

lemma watcher_resumeReturns [simp]: "watcher (resumeReturns s j err) = watcher s"
  by (simp add: resumeReturns_def Let_def split: sum.splits)

lemma recovered_step: "watcher s = WRecovered \<Longrightarrow> watcher (step e s) = WRecovered"
  by (cases e) (simp_all add: step_def tick_def watcherStep_def pauseReturns_def stopWatcher_def)

lemma recovered_run: "watcher s = WRecovered \<Longrightarrow> watcher (run es s) = WRecovered"
  by (induction es arbitrary: s) (simp_all add: recovered_step)

lemma recovered_idle:
  "watcher s = WRecovered \<Longrightarrow>
   step (Tick now order) s = s \<and> step WatcherStep s = s \<and> step (PauseReturns r) s = s
   \<and> step Stop s = s"
  by (simp add: step_def tick_def watcherStep_def pauseReturns_def stopWatcher_def)

lemma run_append: "run (es @ es') s = run es' (run es s)"
  by (induction es arbitrary: s) simp_all

lemma panicTrace_state:
  "run panicTrace (provision 30 30) =
   \<lparr>mgr = \<lparr>vms = [''alpha'' \<mapsto> \<lparr>hostname = ''vm-alpha'', ip = ''10.0.0.5'',
                     status = statusRunning, lastSeen = 2, wakeCh = None, wakeErr = None\<rparr>],
            closed = {}, nextCh = 0, calls = [GetHostGroupNodes ''alpha'', PauseVM ''vm-alpha''],
            logs = [''idle watcher started'', ''pausing idle VM'', ''idle watcher panic recovered'']\<rparr>,
     requests = [\<lparr>rkey = ''alpha'', rpc = Served\<rparr>], wakes = [], watcher = WRecovered,
     idleTimeout = 30, wakeTimeout = 30, crashed = False\<rparr>"
  by (simp add: panicTrace_def step_simps alphaNode_def nodeStatusToVM_def status_defs
       time_Sub_def minDuration_def maxDuration_def)








lemma closed_lookup_store [simp]: "closed (fst (lookup_store m k nodes now)) = closed m"
  by (simp add: lookup_store_def Let_def split: option.splits list.splits)

lemma closed_touchLastSeen [simp]: "closed (touchLastSeen m k now) = closed m"
  by (simp add: touchLastSeen_def split: option.splits)

lemma closed_markPaused [simp]: "closed (markPaused m k) = closed m"
  by (simp add: markPaused_def split: option.splits)

lemma closed_initiateWake [simp]: "closed (fst (initiateWake m k)) = closed m"
  by (simp add: initiateWake_def Let_def split: option.splits)








section \<open>Waiting requests in the reachable states\<close>












lemma requests_resumeReturns [simp]: "requests (resumeReturns s j err) = requests s"
  by (simp add: resumeReturns_def Let_def split: sum.splits)

lemma requests_watcher_events [simp]:
  "requests (tick s now order) = requests s" "requests (watcherStep s) = requests s"
  "requests (pauseReturns s r) = requests s" "requests (stopWatcher s) = requests s"
  by (simp_all add: tick_def watcherStep_def pauseReturns_def stopWatcher_def Let_def
       split: wstate.splits list.splits pause_result.splits)





lemma crashed_stepRequest [simp]: "crashed (stepRequest s i now) = crashed s"
  by (simp add: stepRequest_def Let_def
      split: pc.splits option.splits sum.splits prod.splits outcome.splits)

lemma crashed_describeReturns [simp]: "crashed (describeReturns s i res) = crashed s"
  by (simp add: describeReturns_def Let_def split: pc.splits sum.splits)

lemma crashed_selectFires [simp]: "crashed (selectFires s i sc) = crashed s"
  by (simp add: selectFires_def Let_def split: pc.splits select_case.splits option.splits)

lemma crashed_watcher_events [simp]:
  "crashed (tick s now order) = crashed s" "crashed (watcherStep s) = crashed s"
  "crashed (pauseReturns s r) = crashed s" "crashed (stopWatcher s) = crashed s"
  by (simp_all add: tick_def watcherStep_def pauseReturns_def stopWatcher_def Let_def
       split: wstate.splits list.splits pause_result.splits)





section \<open>Properties of the reachable states\<close>

text \<open>
  C6. A NotFound record is terminal: from a reachable state in which the record of a key
  is NotFound, whatever events follow (requests with their \<^verbatim>\<open>lookup\<close>,
  \<^verbatim>\<open>ensureRunning\<close> and \<^verbatim>\<open>touchLastSeen\<close>, returns of \<^verbatim>\<open>ResumeVM\<close> with
  \<^verbatim>\<open>finishWake\<close>, ticks of the watcher with \<^verbatim>\<open>markPaused\<close>), the key still has a
  record and it is NotFound. \<^verbatim>\<open>markPaused\<close> and \<^verbatim>\<open>finishWake\<close> have no status check of
  their own; the watcher calls \<^verbatim>\<open>markPaused\<close> only for keys \<^verbatim>\<open>idleApps\<close> reported,
  whose records are Running, and a wake is started only for a record that is not NotFound.
\<close>

theorem notFound_terminal:
  assumes "reachable s" and "vms (mgr s) k = Some info" and "status info = statusNotFound"
  shows "\<exists>info'. vms (mgr (run es s)) k = Some info' \<and> status info' = statusNotFound"
  using assms
proof (induction es arbitrary: s info)
  case Nil
  then show ?case by simp
next
  case (Cons e es)
  have g: "grows (mgr s) (mgr (step e s))"
    using reachable_inv[OF Cons.prems(1)] by (rule grows_step)
  have "hasStatus (mgr s) k statusNotFound" using Cons.prems by (simp add: hasStatus_Some)
  then have "hasStatus (mgr (step e s)) k statusNotFound"
    using g Cons.prems(2) by (simp add: grows_def)
  then obtain i where i: "vms (mgr (step e s)) k = Some i" "status i = statusNotFound"
    using hasStatus_ex by blast
  have "reachable (step e s)" using Cons.prems(1) by (rule reachable.stepped)
  from Cons.IH[OF this i] show ?case by simp
qed

theorem notFound_terminal_witness:
  "reachable (run [Request ''ghost'', Step 0 0, DescribeReturns 0 (Inr []), Step 0 1] (provision 30 30))
   \<and> vms (mgr (run [Request ''ghost'', Step 0 0, DescribeReturns 0 (Inr []), Step 0 1] (provision 30 30)))
        ''ghost'' = Some \<lparr>hostname = [], ip = [], status = statusNotFound,
                     lastSeen = zeroTime, wakeCh = None, wakeErr = None\<rparr>
   \<and> (\<exists>info'. vms (mgr (run [Step 0 2, Request ''ghost'', Step 1 3, Step 1 4, Tick 100 [''ghost''], WatcherStep]
          (run [Request ''ghost'', Step 0 0, DescribeReturns 0 (Inr []), Step 0 1] (provision 30 30))))
        ''ghost'' = Some info' \<and> status info' = statusNotFound)"
proof -
  let ?s = "run [Request ''ghost'', Step 0 0, DescribeReturns 0 (Inr []), Step 0 1] (provision 30 30)"
  let ?i = "\<lparr>hostname = [], ip = [], status = statusNotFound,
                     lastSeen = zeroTime, wakeCh = None, wakeErr = None\<rparr>"
  have h1: "reachable ?s" by (rule reachable_run[OF reachable.provisioned])
  have h2: "vms (mgr ?s) ''ghost'' = Some ?i" unfolding ghost_state by simp
  have h3: "status ?i = statusNotFound" by simp
  show ?thesis using h1 h2 notFound_terminal[OF h1 h2 h3] by blast
qed

text \<open>
  C10. In every reachable state the status of every record is one of the five constants,
  no request has returned the error \<open>unexpected status\<close>, and \<^verbatim>\<open>ensureRunning\<close> on the
  manager of that state does not return it either, for any key and any answer of the
  describe call.
\<close>

theorem unexpected_status_unreachable:
  assumes "reachable s"
  shows "(\<forall>k info. vms (mgr s) k = Some info \<longrightarrow> validStatus (status info))
       \<and> (\<forall>r \<in> set (requests s). \<forall>k. rpc r \<noteq> Returned (Inl (UnexpectedStatus k)))
       \<and> (\<forall>k k' res now. snd (ensureRunning (mgr s) k res now) \<noteq> Return (Inl (UnexpectedStatus k')))"
proof -
  have I: "sysInv s" using assms by (rule reachable_inv)
  have a: "\<And>k info. vms (mgr s) k = Some info \<Longrightarrow> validStatus (status info)"
    using okManagerD2[OF invD_mgr[OF I]] by (simp add: okRecord_def)
  have b: "\<forall>r \<in> set (requests s). \<forall>k. rpc r \<noteq> Returned (Inl (UnexpectedStatus k))"
    using I by (simp add: sysInv_def okRequest_def)
  have c: "\<And>k k' res now. snd (ensureRunning (mgr s) k res now) \<noteq> Return (Inl (UnexpectedStatus k'))"
    by (rule ensureRunning_no_unexpected) (rule a)
  show ?thesis
  proof (intro conjI)
    show "\<forall>k info. vms (mgr s) k = Some info \<longrightarrow> validStatus (status info)" using a by blast
    show "\<forall>r \<in> set (requests s). \<forall>k. rpc r \<noteq> Returned (Inl (UnexpectedStatus k))" by (rule b)
    show "\<forall>k k' res now. snd (ensureRunning (mgr s) k res now) \<noteq> Return (Inl (UnexpectedStatus k'))"
      using c by blast
  qed
qed

theorem unexpected_status_unreachable_witness:
  "reachable (run [Request ''ghost'', Step 0 0, DescribeReturns 0 (Inr []), Step 0 1] (provision 30 30))
   \<and> snd (ensureRunning (mgr (run [Request ''ghost'', Step 0 0, DescribeReturns 0 (Inr []), Step 0 1]
            (provision 30 30))) ''ghost'' (Inr []) 3) \<noteq> Return (Inl (UnexpectedStatus ''ghost''))"
proof -
  let ?s = "run [Request ''ghost'', Step 0 0, DescribeReturns 0 (Inr []), Step 0 1] (provision 30 30)"
  have h1: "reachable ?s" by (rule reachable_run[OF reachable.provisioned])
  show ?thesis using h1 unexpected_status_unreachable[OF h1] by blast
qed

section \<open>The wake channel and the idle watcher\<close>




text \<open>
  C7, as the claim states it, fails: after a panic inside a tick the watcher has returned.
  The key \<open>alpha\<close> is still Running and idle, and the next tick of the ticker does nothing:
  no \<^verbatim>\<open>idleApps\<close>, no call of \<^verbatim>\<open>PauseVM\<close>.
\<close>

theorem watcher_ends_after_panic:
  "watcher (run panicTrace (provision 30 30)) = WRecovered
   \<and> idleApps (mgr (run panicTrace (provision 30 30))) 30 200 [''alpha''] = [''alpha'']
   \<and> run (panicTrace @ [Tick 200 [''alpha'']]) (provision 30 30) = run panicTrace (provision 30 30)
   \<and> watcher (run (panicTrace @ [Tick 200 [''alpha''], WatcherStep]) (provision 30 30)) = WRecovered
   \<and> calls (mgr (run (panicTrace @ [Tick 200 [''alpha''], WatcherStep]) (provision 30 30)))
        = [GetHostGroupNodes ''alpha'', PauseVM ''vm-alpha'']"
proof -
  show ?thesis
    unfolding run_append panicTrace_state
    by (simp add: step_def tick_def watcherStep_def idleApps_def time_Sub_def minDuration_def
          maxDuration_def)
qed

text \<open>
  C7, amended. A panic inside a tick is caught by the \<^verbatim>\<open>recover\<close> deferred at the top of
  \<^verbatim>\<open>runIdleWatcher\<close>: it is logged, the process does not crash and the records, the
  requests and the wakes are untouched; but \<^verbatim>\<open>runIdleWatcher\<close> has returned, so whatever
  events follow, the watcher stays returned and a tick of the ticker changes nothing.
\<close>

theorem watcher_panic_recovered_once:
  assumes "watcher s = WPauseVM k h ks" and "\<not> crashed s"
  shows "watcher (step (PauseReturns PausePanic) s) = WRecovered
       \<and> \<not> crashed (step (PauseReturns PausePanic) s)
       \<and> logs (mgr (step (PauseReturns PausePanic) s))
            = logs (mgr s) @ [''idle watcher panic recovered'']
       \<and> vms (mgr (step (PauseReturns PausePanic) s)) = vms (mgr s)
       \<and> requests (step (PauseReturns PausePanic) s) = requests s
       \<and> wakes (step (PauseReturns PausePanic) s) = wakes s
       \<and> (\<forall>es. watcher (run es (step (PauseReturns PausePanic) s)) = WRecovered)
       \<and> (\<forall>now order. step (Tick now order) (step (PauseReturns PausePanic) s)
             = step (PauseReturns PausePanic) s)"
proof -
  have w: "watcher (step (PauseReturns PausePanic) s) = WRecovered"
    using assms by (simp add: step_def pauseReturns_def Let_def)
  show ?thesis
    using assms w recovered_run[OF w] recovered_idle[OF w]
    by (simp add: step_def pauseReturns_def Let_def logMsg_def)
qed

theorem watcher_panic_recovered_once_witness:
  "watcher (run (butlast panicTrace) (provision 30 30)) = WPauseVM ''alpha'' ''vm-alpha'' []
   \<and> watcher (step (PauseReturns PausePanic) (run (butlast panicTrace) (provision 30 30))) = WRecovered
   \<and> watcher (run [Tick 200 [''alpha''], WatcherStep, Request ''alpha'', Tick 300 [''alpha'']]
        (step (PauseReturns PausePanic) (run (butlast panicTrace) (provision 30 30)))) = WRecovered"
proof -
  let ?s = "run (butlast panicTrace) (provision 30 30)"
  have s: "?s =
   \<lparr>mgr = \<lparr>vms = [''alpha'' \<mapsto> \<lparr>hostname = ''vm-alpha'', ip = ''10.0.0.5'',
                     status = statusRunning, lastSeen = 2, wakeCh = None, wakeErr = None\<rparr>],
            closed = {}, nextCh = 0, calls = [GetHostGroupNodes ''alpha''],
            logs = [''idle watcher started'', ''pausing idle VM'']\<rparr>,
     requests = [\<lparr>rkey = ''alpha'', rpc = Served\<rparr>], wakes = [],
     watcher = WPauseVM ''alpha'' ''vm-alpha'' [],
     idleTimeout = 30, wakeTimeout = 30, crashed = False\<rparr>"
    by (simp add: panicTrace_def step_simps alphaNode_def nodeStatusToVM_def status_defs
       time_Sub_def minDuration_def maxDuration_def)
  have h1: "watcher ?s = WPauseVM ''alpha'' ''vm-alpha'' []" unfolding s by simp
  have h2: "\<not> crashed ?s" unfolding s by simp
  show ?thesis using h1 watcher_panic_recovered_once[OF h1 h2] by blast
qed

section \<open>Coalesced wakes\<close>




end
